theory Spec2Isabelle
  imports Main "HOL-Library.Word"
begin

unbundle bit_operations_syntax

section \<open>Shared data: errors, protobuf points, write and flush contexts\<close>

text \<open>
  The error values of package series that the memory database returns, and one constructor
  for the errors of external collaborators (\<^verbatim>\<open>fmt.Errorf\<close>, the ID generator, the
  table flusher).
\<close>

datatype error =
    ErrTooManyTags
  | ErrTooManyFields
  | ErrWrongFieldType
  | ErrNotFound
  | ErrResetVersionUnavailable
  | ErrShardConfigConflict
  | ErrOther string

text \<open>
  \<^verbatim>\<open>field.Type\<close>: the only kind the write path of this version handles is the sum
  field; every other kind of the protobuf oneof is \<^verbatim>\<open>Field_Other\<close>. A float64 is kept as
  its 64 bit pattern; no arithmetic on it is modelled.
\<close>

datatype fieldType = SumField | UnknownField

datatype pbFieldValue = Field_Sum "64 word" | Field_Other

record pbField =
  f_Name :: string
  f_Field :: pbFieldValue

record pbMetric =
  Name :: string
  Timestamp :: int
  Tags :: "(string \<times> string) list"
  Fields :: "pbField list"

text \<open>\<^verbatim>\<open>writeContext\<close> and \<^verbatim>\<open>flushContext\<close> of database.go (the block store and
  the generator are passed separately).\<close>

record writeContext =
  w_metricID :: "32 word"
  w_familyTime :: int
  w_slotIndex :: int
  w_timeInterval :: int

definition PointTime :: "writeContext \<Rightarrow> int" where
  "PointTime writeCtx = w_familyTime writeCtx + w_timeInterval writeCtx * w_slotIndex writeCtx"

record flushContext =
  fl_metricID :: "32 word"
  fl_familyTime :: int
  fl_timeInterval :: int

record fieldMeta =
  m_Name :: string
  m_ID :: "16 word"
  m_Type :: fieldType

text \<open>
  The \<^verbatim>\<open>metricsdata.Flusher\<close> is an external collaborator. It is modelled by the
  sequence of calls it received and by the answer of its only fallible call used here,
  \<^verbatim>\<open>FlushMetric\<close>.
\<close>

datatype flushEvent =
    EvFlushFieldMetas "fieldMeta list"
  | EvFlushField "16 word" "(int \<times> 64 word) list"
  | EvFlushSeries "32 word"
  | EvFlushMetric "32 word"

record flusher =
  events :: "flushEvent list"
  metricErr :: "32 word \<Rightarrow> error option"

definition emit :: "flushEvent \<Rightarrow> flusher \<Rightarrow> flusher" where
  "emit ev fl = fl\<lparr>events := events fl @ [ev]\<rparr>"

text \<open>
  The memory sizes of the components whose files are not part of the sources are
  parameters of the model.
\<close>

record absentSizes =
  emptySimpleFieldStoreSize :: int
  blockSize :: int
  emptyTimeSeriesStoreSize :: int
  emptyTagIndexSize :: int

section \<open>Segment store\<close>

text \<open>
  Modelled from the spec: the segment store (\<^verbatim>\<open>sStoreINTF\<close>, made by
  \<^verbatim>\<open>newSimpleFieldStore\<close>) is not part of the sources. It holds the family time, the
  aggregation function and a slot buffer taken from the block pool; the buffer is kept here
  as the writes merged into it, \<^verbatim>\<open>(slotIndex, value)\<close> in order. \<^verbatim>\<open>Bytes\<close> with
  reset releases the buffer and fails when there is none.
\<close>

record sStore =
  s_familyTime :: int
  s_aggFunc :: fieldType
  s_block :: "(int \<times> 64 word) list option"

definition newSimpleFieldStore :: "int \<Rightarrow> fieldType \<Rightarrow> sStore" where
  "newSimpleFieldStore familyTime aggFunc =
     \<lparr>s_familyTime = familyTime, s_aggFunc = aggFunc, s_block = None\<rparr>"

definition GetFamilyTime :: "sStore \<Rightarrow> int" where
  "GetFamilyTime s = s_familyTime s"

text \<open>Modelled from the spec: \<^verbatim>\<open>MemSize\<close> of the segment store, its own bytes and
  those of the slot buffer while it holds one.\<close>

definition sStore_MemSize :: "absentSizes \<Rightarrow> sStore \<Rightarrow> int" where
  "sStore_MemSize sz s =
     emptySimpleFieldStoreSize sz + (case s_block s of None \<Rightarrow> 0 | Some _ \<Rightarrow> blockSize sz)"

text \<open>Modelled from the spec: \<^verbatim>\<open>WriteFloat\<close> merges the value into the slot of the
  write context and returns the bytes grown, those of the buffer on the first write.\<close>

definition WriteFloat :: "absentSizes \<Rightarrow> sStore \<Rightarrow> 64 word \<Rightarrow> writeContext \<Rightarrow> int \<times> sStore" where
  "WriteFloat sz s v writeCtx =
     (case s_block s of
        None \<Rightarrow> (blockSize sz, s\<lparr>s_block := Some [(w_slotIndex writeCtx, v)]\<rparr>)
      | Some b \<Rightarrow> (0, s\<lparr>s_block := Some (b @ [(w_slotIndex writeCtx, v)])\<rparr>))"

text \<open>Modelled from the spec: \<^verbatim>\<open>Bytes(reset)\<close> returns the block of the slots; with
  reset the buffer goes back to the block pool.\<close>

definition Bytes :: "sStore \<Rightarrow> bool \<Rightarrow> (error + (int \<times> 64 word) list) \<times> sStore" where
  "Bytes s reset =
     (case s_block s of
        None \<Rightarrow> (Inl (ErrOther ''no data''), s)
      | Some b \<Rightarrow> (Inr b, if reset then s\<lparr>s_block := None\<rparr> else s))"

section \<open>Field store (tsdb/memdb/field\_store.go)\<close>

definition emptyFieldStoreSize :: int where
  "emptyFieldStoreSize = 2 + 24"

text \<open>
  A Go slice has a length and a capacity; \<^verbatim>\<open>MemSize\<close> and \<^verbatim>\<open>Write\<close> read the
  capacity, so the field store keeps it beside the list.
\<close>

record fieldStore =
  fieldID :: "16 word"
  sStoreNodes :: "sStore list"
  capNodes :: nat

definition newFieldStore :: "16 word \<Rightarrow> fieldStore" where
  "newFieldStore fid = \<lparr>fieldID = fid, sStoreNodes = [], capNodes = 0\<rparr>"

definition GetFieldID :: "fieldStore \<Rightarrow> 16 word" where
  "GetFieldID fs = fieldID fs"

definition SegmentsCount :: "fieldStore \<Rightarrow> nat" where
  "SegmentsCount fs = length (sStoreNodes fs)"

text \<open>
  \<^verbatim>\<open>sort.Search(n, f)\<close> of the Go library: the binary search loop
  \<^verbatim>\<open>i, j := 0, n; for i < j { h := (i+j)/2; if !f(h) { i = h+1 } else { j = h } }\<close>.
\<close>

function search_loop :: "(nat \<Rightarrow> bool) \<Rightarrow> nat \<Rightarrow> nat \<Rightarrow> nat" where
  "search_loop f i j =
     (if i < j then
        (let h = (i + j) div 2 in
         if \<not> f h then search_loop f (h + 1) j else search_loop f i h)
      else i)"
  by pat_completeness auto
termination
  by (relation "measure (\<lambda>(f, i, j). j - i)") auto

definition Search :: "nat \<Rightarrow> (nat \<Rightarrow> bool) \<Rightarrow> nat" where
  "Search n f = search_loop f 0 n"

definition searchIdx :: "fieldStore \<Rightarrow> int \<Rightarrow> nat" where
  "searchIdx fs familyTime =
     Search (length (sStoreNodes fs)) (\<lambda>i. GetFamilyTime (sStoreNodes fs ! i) \<ge> familyTime)"

definition GetSStore :: "fieldStore \<Rightarrow> int \<Rightarrow> sStore option" where
  "GetSStore fs familyTime =
     (let idx = searchIdx fs familyTime in
      if idx \<ge> length (sStoreNodes fs) \<or> GetFamilyTime (sStoreNodes fs ! idx) \<noteq> familyTime
      then None
      else Some (sStoreNodes fs ! idx))"

definition removeSStore :: "fieldStore \<Rightarrow> int \<Rightarrow> fieldStore" where
  "removeSStore fs familyTime =
     (let idx = searchIdx fs familyTime in
      if idx = length (sStoreNodes fs) then fs
      else if GetFamilyTime (sStoreNodes fs ! idx) \<noteq> familyTime then fs
      else fs\<lparr>sStoreNodes := take idx (sStoreNodes fs) @ drop (idx + 1) (sStoreNodes fs)\<rparr>)"

text \<open>
  \<^verbatim>\<open>append\<close> of the Go runtime keeps the capacity while there is room and otherwise
  doubles it (1 for an empty slice); this is its growth for slices of fewer than 256
  elements. \<^verbatim>\<open>sort.Sort\<close> orders by \<^verbatim>\<open>Less\<close>, here the family time; it is not
  stable, and \<^verbatim>\<open>sort_key\<close> gives one of the orders it may produce when two segments
  share a family time.
\<close>

definition appendCap :: "nat \<Rightarrow> nat \<Rightarrow> nat" where
  "appendCap len c = (if len < c then c else if c = 0 then 1 else 2 * c)"

definition insertSStore :: "fieldStore \<Rightarrow> sStore \<Rightarrow> fieldStore" where
  "insertSStore fs s =
     fs\<lparr>sStoreNodes := sort_key GetFamilyTime (sStoreNodes fs @ [s]),
        capNodes := appendCap (length (sStoreNodes fs)) (capNodes fs)\<rparr>"

text \<open>
  \<^verbatim>\<open>Write\<close> holds a pointer to the segment it found or inserted and writes the value
  through it: the segment at the index of its family time is replaced by the written one.
  (In a sorted list that index is where \<^verbatim>\<open>GetSStore\<close> found the segment, or where
  the sort has put the new one.)
\<close>

definition writeThrough :: "absentSizes \<Rightarrow> fieldStore \<Rightarrow> 64 word \<Rightarrow> writeContext \<Rightarrow> int \<times> fieldStore" where
  "writeThrough sz fs v writeCtx =
     (let idx = searchIdx fs (w_familyTime writeCtx);
          (n, s') = WriteFloat sz (sStoreNodes fs ! idx) v writeCtx
      in (n, fs\<lparr>sStoreNodes := (sStoreNodes fs)[idx := s']\<rparr>))"

definition fs_Write :: "absentSizes \<Rightarrow> fieldStore \<Rightarrow> pbField \<Rightarrow> writeContext \<Rightarrow> int \<times> fieldStore" where
  "fs_Write sz fs f writeCtx =
     (case f_Field f of
        Field_Sum v \<Rightarrow>
          (case GetSStore fs (w_familyTime writeCtx) of
             None \<Rightarrow>
               (let oldCap = capNodes fs;
                    s = newSimpleFieldStore (w_familyTime writeCtx) SumField;
                    fs1 = insertSStore fs s;
                    created = (int (capNodes fs1) - int oldCap) * 8 + sStore_MemSize sz s;
                    (n, fs2) = writeThrough sz fs1 v writeCtx
                in (created + n, fs2))
           | Some _ \<Rightarrow> writeThrough sz fs v writeCtx)
      | Field_Other \<Rightarrow> (0, fs))"

definition FlushFieldTo :: "absentSizes \<Rightarrow> fieldStore \<Rightarrow> flusher \<Rightarrow> int \<Rightarrow> int \<times> fieldStore \<times> flusher" where
  "FlushFieldTo sz fs tableFlusher familyTime =
     (case GetSStore fs familyTime of
        None \<Rightarrow> (0, fs, tableFlusher)
      | Some s \<Rightarrow>
          (let fs1 = removeSStore fs familyTime in
           case Bytes s True of
             (Inl err, s') \<Rightarrow> (0, fs1, tableFlusher)
           | (Inr data, s') \<Rightarrow>
               (sStore_MemSize sz s', fs1, emit (EvFlushField (fieldID fs) data) tableFlusher)))"

definition fs_MemSize :: "absentSizes \<Rightarrow> fieldStore \<Rightarrow> int" where
  "fs_MemSize sz fs =
     emptyFieldStoreSize + 8 * int (capNodes fs) + sum_list (map (sStore_MemSize sz) (sStoreNodes fs))"

text \<open>The operations that change the segment list, and a run of them.\<close>

datatype fsOp = OpWrite pbField writeContext | OpInsert sStore | OpRemove int

fun fs_step :: "absentSizes \<Rightarrow> fieldStore \<Rightarrow> fsOp \<Rightarrow> fieldStore" where
  "fs_step sz fs (OpWrite f writeCtx) = snd (fs_Write sz fs f writeCtx)"
| "fs_step sz fs (OpInsert s) = insertSStore fs s"
| "fs_step sz fs (OpRemove familyTime) = removeSStore fs familyTime"

fun fs_run :: "absentSizes \<Rightarrow> fieldStore \<Rightarrow> fsOp list \<Rightarrow> fieldStore" where
  "fs_run sz fs [] = fs"
| "fs_run sz fs (op # ops) = fs_run sz (fs_step sz fs op) ops"

text \<open>A run in which \<^verbatim>\<open>insertSStore\<close> is only called, as \<^verbatim>\<open>Write\<close> calls it,
  for a family time that \<^verbatim>\<open>GetSStore\<close> does not find.\<close>

fun insertsFresh :: "absentSizes \<Rightarrow> fieldStore \<Rightarrow> fsOp list \<Rightarrow> bool" where
  "insertsFresh sz fs [] = True"
| "insertsFresh sz fs (OpInsert s # ops) =
     (GetSStore fs (GetFamilyTime s) = None \<and> insertsFresh sz (insertSStore fs s) ops)"
| "insertsFresh sz fs (op # ops) = insertsFresh sz (fs_step sz fs op) ops"

definition familyTimes_of :: "fieldStore \<Rightarrow> int list" where
  "familyTimes_of fs = map GetFamilyTime (sStoreNodes fs)"

section \<open>Constants (constants/tsdb.go)\<close>

definition DefaultMStoreMaxTagsCount :: "32 word" where
  "DefaultMStoreMaxTagsCount = 10000000"

definition MStoreMaxTagKeysCount :: nat where
  "MStoreMaxTagKeysCount = 512"

definition TStoreMaxFieldsCount :: nat where
  "TStoreMaxFieldsCount = 1024"

definition MaxSuggestions :: int where
  "MaxSuggestions = 10000"

section \<open>Field metas and the ID generator\<close>

text \<open>
  Modelled from the spec: \<^verbatim>\<open>field.Metas\<close> (package series/field) is not part of the
  sources. The field-meta list is append-only; \<^verbatim>\<open>GetFromName\<close> finds the meta of a field
  name, \<^verbatim>\<open>Insert\<close> adds one, \<^verbatim>\<open>Len\<close> is the length of the list and
  \<^verbatim>\<open>Clone\<close> a copy of it.
\<close>

definition GetFromName :: "fieldMeta list \<Rightarrow> string \<Rightarrow> fieldMeta option" where
  "GetFromName fms name = find (\<lambda>m. m_Name m = name) fms"

definition metas_Insert :: "fieldMeta list \<Rightarrow> fieldMeta \<Rightarrow> fieldMeta list" where
  "metas_Insert fms m = fms @ [m]"

text \<open>
  \<^verbatim>\<open>metadb.IDGenerator\<close> is an external collaborator: the model takes its answers as
  functions of the arguments of the call.
\<close>

record IDGenerator =
  GenMetricID :: "string \<Rightarrow> 32 word"
  GenFieldID :: "32 word \<Rightarrow> string \<Rightarrow> fieldType \<Rightarrow> error + 16 word"

section \<open>The stores above the field store: their data\<close>

text \<open>
  Modelled from the spec: the time series store and the tag index are not part of the
  sources. A time series store owns a list of field stores sorted by field ID, each ID at
  most once. (Its last-used epoch, which only eviction reads, is left out.)

  A tag index holds its version, the tag-entry sets (tag key, and for each tag value the
  bitmap of series IDs) in insertion order, the series ID of every tag combination, the map
  from series ID to time series store, the counter of series IDs (a uint32, as the series
  IDs of \<^verbatim>\<open>Evict\<close> and \<^verbatim>\<open>GetTagValues\<close> are) and the range of the point times seen,
  as offsets to the version. A tag combination, a Go map, is the list of its entries in
  ascending order of the keys.
\<close>

record timeSeriesStore =
  fStoreNodes :: "fieldStore list"

record tagKVEntrySet =
  e_key :: string
  e_values :: "(string \<times> 32 word list) list"

record tagIndex =
  version :: int
  tagKVEntrySets :: "tagKVEntrySet list"
  tags2SeriesID :: "((string \<times> string) list \<times> 32 word) list"
  seriesID2TStore :: "(32 word \<times> timeSeriesStore) list"
  idCounter :: "32 word"
  timeDeltas :: "(int \<times> int) option"

text \<open>
  \<^verbatim>\<open>metricStore\<close> of metric\_store.go. \<^verbatim>\<open>immutable\<close> is an \<^verbatim>\<open>atomic.Value\<close>:
  \<^verbatim>\<open>None\<close> while nothing was stored in it.
\<close>

record metricStore =
  immutable :: "tagIndex option"
  mutable :: tagIndex
  fieldsMetas :: "fieldMeta list"
  maxTagsLimit :: "32 word"
  metricID :: "32 word"
  ms_size :: "32 word"

definition emptyMStoreSize :: int where
  "emptyMStoreSize = 8 + 8 + 24 + 8 + 4 + 4 + 4"

section \<open>metricStore.GetFieldIDOrGenerate (metric\_store.go)\<close>

text \<open>
  The second lookup is the double check under the lock; in a sequential run it finds what
  the first one found.
\<close>

definition GetFieldIDOrGenerate ::
  "metricStore \<Rightarrow> string \<Rightarrow> fieldType \<Rightarrow> IDGenerator \<Rightarrow> (error + 16 word) \<times> metricStore" where
  "GetFieldIDOrGenerate ms fieldName fieldTy gen =
     (let fmList = fieldsMetas ms in
      case GetFromName fmList fieldName of
        Some fm \<Rightarrow>
          if m_Type fm = fieldTy then (Inr (m_ID fm), ms) else (Inl ErrWrongFieldType, ms)
      | None \<Rightarrow>
          if length fmList \<ge> TStoreMaxFieldsCount then (Inl ErrTooManyFields, ms)
          else
            (let fmList2 = fieldsMetas ms in
             case GetFromName fmList2 fieldName of
               Some fm \<Rightarrow> (Inr (m_ID fm), ms)
             | None \<Rightarrow>
                 (case GenFieldID gen (metricID ms) fieldName fieldTy of
                    Inl err \<Rightarrow> (Inl err, ms)
                  | Inr newFieldID \<Rightarrow>
                      (Inr newFieldID,
                       ms\<lparr>fieldsMetas :=
                            metas_Insert fmList2
                              \<lparr>m_Name = fieldName, m_ID = newFieldID, m_Type = fieldTy\<rparr>\<rparr>))))"

section \<open>Time series store\<close>

text \<open>
  Modelled from the spec: \<^verbatim>\<open>Write\<close> iterates the fields of the metric, resolves or
  generates the field ID through the metric store (type-checked), creates the field store
  on the first write of the field and delegates to \<^verbatim>\<open>fieldStore.Write\<close>. An error of the
  getter ends the write and is returned. The flush of a series flushes the family of every
  field store and then reports the series.
\<close>

definition newTimeSeriesStore :: timeSeriesStore where
  "newTimeSeriesStore = \<lparr>fStoreNodes = []\<rparr>"

definition getFieldType :: "pbField \<Rightarrow> fieldType" where
  "getFieldType f = (case f_Field f of Field_Sum _ \<Rightarrow> SumField | Field_Other \<Rightarrow> UnknownField)"

definition GetFStore :: "timeSeriesStore \<Rightarrow> 16 word \<Rightarrow> fieldStore option" where
  "GetFStore ts fid = find (\<lambda>fs. fieldID fs = fid) (fStoreNodes ts)"

definition insertFStore :: "timeSeriesStore \<Rightarrow> fieldStore \<Rightarrow> timeSeriesStore" where
  "insertFStore ts fs = ts\<lparr>fStoreNodes := insort_key (\<lambda>x. unat (fieldID x)) fs (fStoreNodes ts)\<rparr>"

definition ts_MemSize :: "absentSizes \<Rightarrow> timeSeriesStore \<Rightarrow> int" where
  "ts_MemSize sz ts = emptyTimeSeriesStoreSize sz + sum_list (map (fs_MemSize sz) (fStoreNodes ts))"

fun writeFStore ::
  "absentSizes \<Rightarrow> fieldStore list \<Rightarrow> 16 word \<Rightarrow> pbField \<Rightarrow> writeContext \<Rightarrow> int \<times> fieldStore list" where
  "writeFStore sz [] fid f writeCtx = (0, [])"
| "writeFStore sz (x # xs) fid f writeCtx =
     (if fieldID x = fid
      then (let (n, x') = fs_Write sz x f writeCtx in (n, x' # xs))
      else (let (n, xs') = writeFStore sz xs fid f writeCtx in (n, x # xs')))"

text \<open>Modelled from the spec: the loop of \<^verbatim>\<open>timeSeriesStore.Write\<close> over the fields of
  the metric; \<^verbatim>\<open>getter\<close> is the metric store as \<^verbatim>\<open>mStoreFieldIDGetter\<close>.\<close>

fun writeFields ::
  "absentSizes \<Rightarrow> IDGenerator \<Rightarrow> writeContext \<Rightarrow> pbField list \<Rightarrow> timeSeriesStore \<Rightarrow> metricStore \<Rightarrow> int
     \<Rightarrow> (int \<times> error option) \<times> timeSeriesStore \<times> metricStore" where
  "writeFields sz gen writeCtx [] ts getter acc = ((acc, None), ts, getter)"
| "writeFields sz gen writeCtx (f # fs) ts getter acc =
     (case GetFieldIDOrGenerate getter (f_Name f) (getFieldType f) gen of
        (Inl err, getter') \<Rightarrow> ((acc, Some err), ts, getter')
      | (Inr fid, getter') \<Rightarrow>
          (let (created, ts1) =
                 (case GetFStore ts fid of
                    Some _ \<Rightarrow> (0, ts)
                  | None \<Rightarrow> (fs_MemSize sz (newFieldStore fid), insertFStore ts (newFieldStore fid)));
               (n, nodes2) = writeFStore sz (fStoreNodes ts1) fid f writeCtx
           in writeFields sz gen writeCtx fs (ts1\<lparr>fStoreNodes := nodes2\<rparr>) getter' (acc + created + n)))"

definition ts_Write ::
  "absentSizes \<Rightarrow> IDGenerator \<Rightarrow> timeSeriesStore \<Rightarrow> pbMetric \<Rightarrow> writeContext \<Rightarrow> metricStore
     \<Rightarrow> (int \<times> error option) \<times> timeSeriesStore \<times> metricStore" where
  "ts_Write sz gen ts metric writeCtx getter = writeFields sz gen writeCtx (Fields metric) ts getter 0"

text \<open>Modelled from the spec: the flush of a series calls \<^verbatim>\<open>FlushFieldTo\<close> on every
  field store of the time series store.\<close>

fun flushFStores ::
  "absentSizes \<Rightarrow> fieldStore list \<Rightarrow> flusher \<Rightarrow> int \<Rightarrow> int \<times> fieldStore list \<times> flusher" where
  "flushFStores sz [] fl familyTime = (0, [], fl)"
| "flushFStores sz (x # xs) fl familyTime =
     (let (n, x', fl1) = FlushFieldTo sz x fl familyTime;
          (m, xs', fl2) = flushFStores sz xs fl1 familyTime
      in (n + m, x' # xs', fl2))"

definition FlushSeriesTo ::
  "absentSizes \<Rightarrow> timeSeriesStore \<Rightarrow> flusher \<Rightarrow> flushContext \<Rightarrow> 32 word \<Rightarrow> int \<times> timeSeriesStore \<times> flusher" where
  "FlushSeriesTo sz ts fl flushCtx seriesID =
     (let (n, nodes', fl1) = flushFStores sz (fStoreNodes ts) fl (fl_familyTime flushCtx)
      in (n, ts\<lparr>fStoreNodes := nodes'\<rparr>, emit (EvFlushSeries seriesID) fl1))"

section \<open>Tag index\<close>

text \<open>
  Modelled from the spec: \<^verbatim>\<open>GetOrCreateTStore\<close> looks the tag combination up and, on a
  miss, allocates the next series ID, inserts it into the bitmap of every tag key and value
  of the combination and into the forward store, and returns the new time series store with
  the bytes created. The index takes no tag limit from its caller (the check against
  \<^verbatim>\<open>maxTagsLimit\<close> is \<^verbatim>\<open>isFull\<close> of the metric store); the limit it knows is the
  constant \<^verbatim>\<open>MStoreMaxTagKeysCount\<close> of constants/tsdb.go, the maximum of tag keys of a
  metric store, and it returns an error rather than exceed it.
\<close>

definition newTagIndex :: "int \<Rightarrow> tagIndex" where
  "newTagIndex now =
     \<lparr>version = now, tagKVEntrySets = [], tags2SeriesID = [], seriesID2TStore = [],
      idCounter = 0, timeDeltas = None\<rparr>"

text \<open>Modelled from the spec: the placeholder that stands for an empty immutable slot, with
  version 0.\<close>

definition staticNopTagIndex :: tagIndex where
  "staticNopTagIndex = newTagIndex 0"

definition Version :: "tagIndex \<Rightarrow> int" where
  "Version idx = version idx"

definition GetTagKVEntrySets :: "tagIndex \<Rightarrow> tagKVEntrySet list" where
  "GetTagKVEntrySets idx = tagKVEntrySets idx"

definition TagsUsed :: "tagIndex \<Rightarrow> int" where
  "TagsUsed idx = uint (idCounter idx)"

definition TagsInUse :: "tagIndex \<Rightarrow> int" where
  "TagsInUse idx = int (length (seriesID2TStore idx))"

definition GetTStoreBySeriesID :: "tagIndex \<Rightarrow> 32 word \<Rightarrow> timeSeriesStore option" where
  "GetTStoreBySeriesID idx sid = map_of (seriesID2TStore idx) sid"

definition GetTStore :: "tagIndex \<Rightarrow> (string \<times> string) list \<Rightarrow> (32 word \<times> timeSeriesStore) option" where
  "GetTStore idx tags =
     (case map_of (tags2SeriesID idx) tags of
        None \<Rightarrow> None
      | Some sid \<Rightarrow>
          (case GetTStoreBySeriesID idx sid of None \<Rightarrow> None | Some ts \<Rightarrow> Some (sid, ts)))"

fun addTagValue :: "(string \<times> 32 word list) list \<Rightarrow> string \<Rightarrow> 32 word \<Rightarrow> (string \<times> 32 word list) list" where
  "addTagValue [] v sid = [(v, [sid])]"
| "addTagValue ((v', bitmap) # vs) v sid =
     (if v' = v then (v', bitmap @ [sid]) # vs else (v', bitmap) # addTagValue vs v sid)"

fun addTag :: "tagKVEntrySet list \<Rightarrow> string \<Rightarrow> string \<Rightarrow> 32 word \<Rightarrow> tagKVEntrySet list" where
  "addTag [] k v sid = [\<lparr>e_key = k, e_values = [(v, [sid])]\<rparr>]"
| "addTag (e # es) k v sid =
     (if e_key e = k then e\<lparr>e_values := addTagValue (e_values e) v sid\<rparr> # es
      else e # addTag es k v sid)"

fun addTags :: "tagKVEntrySet list \<Rightarrow> (string \<times> string) list \<Rightarrow> 32 word \<Rightarrow> tagKVEntrySet list" where
  "addTags es [] sid = es"
| "addTags es ((k, v) # tags) sid = addTags (addTag es k v sid) tags sid"

definition GetOrCreateTStore ::
  "absentSizes \<Rightarrow> tagIndex \<Rightarrow> (string \<times> string) list \<Rightarrow> writeContext
     \<Rightarrow> (error + (32 word \<times> timeSeriesStore \<times> int)) \<times> tagIndex" where
  "GetOrCreateTStore sz idx tags writeCtx =
     (case GetTStore idx tags of
        Some (sid, ts) \<Rightarrow> (Inr (sid, ts, 0), idx)
      | None \<Rightarrow>
          (let newKeys = filter (\<lambda>k. k \<notin> set (map e_key (tagKVEntrySets idx))) (remdups (map fst tags)) in
           if length (tagKVEntrySets idx) + length newKeys > MStoreMaxTagKeysCount
           then (Inl (ErrOther ''too many tag keys''), idx)
           else
             (let sid = idCounter idx + 1;
                  ts = newTimeSeriesStore
              in (Inr (sid, ts, ts_MemSize sz ts),
                  idx\<lparr>tagKVEntrySets := addTags (tagKVEntrySets idx) tags sid,
                      tags2SeriesID := tags2SeriesID idx @ [(tags, sid)],
                      seriesID2TStore := seriesID2TStore idx @ [(sid, ts)],
                      idCounter := sid\<rparr>))))"

text \<open>The caller holds a pointer to the time series store; what it writes through the
  pointer is stored back under the series ID.\<close>

definition putTStore :: "tagIndex \<Rightarrow> 32 word \<Rightarrow> timeSeriesStore \<Rightarrow> tagIndex" where
  "putTStore idx sid ts =
     idx\<lparr>seriesID2TStore := map (\<lambda>(i, t). if i = sid then (i, ts) else (i, t)) (seriesID2TStore idx)\<rparr>"

definition UpdateIndexTimeRange :: "tagIndex \<Rightarrow> int \<Rightarrow> tagIndex" where
  "UpdateIndexTimeRange idx pointTime =
     (let delta = pointTime - version idx in
      idx\<lparr>timeDeltas :=
            (case timeDeltas idx of
               None \<Rightarrow> Some (delta, delta)
             | Some (earliest, latest) \<Rightarrow> Some (min earliest delta, max latest delta))\<rparr>)"

text \<open>Modelled from the spec: \<^verbatim>\<open>MemSize\<close> of a tag index, its own bytes and the sum
  over its time series stores; \<^verbatim>\<open>FlushVersionDataTo\<close> flushes the family of every
  time series store of the index and returns the bytes flushed.\<close>

definition idx_MemSize :: "absentSizes \<Rightarrow> tagIndex \<Rightarrow> int" where
  "idx_MemSize sz idx =
     emptyTagIndexSize sz + sum_list (map (\<lambda>(sid, ts). ts_MemSize sz ts) (seriesID2TStore idx))"

fun flushTStores ::
  "absentSizes \<Rightarrow> (32 word \<times> timeSeriesStore) list \<Rightarrow> flusher \<Rightarrow> flushContext
     \<Rightarrow> int \<times> (32 word \<times> timeSeriesStore) list \<times> flusher" where
  "flushTStores sz [] fl flushCtx = (0, [], fl)"
| "flushTStores sz ((sid, ts) # xs) fl flushCtx =
     (let (n, ts', fl1) = FlushSeriesTo sz ts fl flushCtx sid;
          (m, xs', fl2) = flushTStores sz xs fl1 flushCtx
      in (n + m, (sid, ts') # xs', fl2))"

definition FlushVersionDataTo ::
  "absentSizes \<Rightarrow> tagIndex \<Rightarrow> flusher \<Rightarrow> flushContext \<Rightarrow> int \<times> tagIndex \<times> flusher" where
  "FlushVersionDataTo sz idx fl flushCtx =
     (let (n, stores', fl1) = flushTStores sz (seriesID2TStore idx) fl flushCtx
      in (n, idx\<lparr>seriesID2TStore := stores'\<rparr>, fl1))"

section \<open>Metric store (metric\_store.go)\<close>

definition newMetricStore :: "absentSizes \<Rightarrow> int \<Rightarrow> 32 word \<Rightarrow> metricStore" where
  "newMetricStore sz now mid =
     (let mutableIdx = newTagIndex now in
      \<lparr>immutable = None, mutable = mutableIdx, fieldsMetas = [],
       maxTagsLimit = DefaultMStoreMaxTagsCount, metricID = mid,
       ms_size = word_of_int (idx_MemSize sz mutableIdx)\<rparr>)"

definition GetMetricID :: "metricStore \<Rightarrow> 32 word" where
  "GetMetricID ms = metricID ms"

definition SetMaxTagsLimit :: "metricStore \<Rightarrow> 32 word \<Rightarrow> metricStore" where
  "SetMaxTagsLimit ms limit = ms\<lparr>maxTagsLimit := limit\<rparr>"

definition getMaxTagsLimit :: "metricStore \<Rightarrow> 32 word" where
  "getMaxTagsLimit ms = maxTagsLimit ms"

definition GetTagsInUse :: "metricStore \<Rightarrow> int" where
  "GetTagsInUse ms = TagsInUse (mutable ms)"

definition GetTagsUsed :: "metricStore \<Rightarrow> int" where
  "GetTagsUsed ms = TagsUsed (mutable ms)"

definition isFull :: "metricStore \<Rightarrow> bool" where
  "isFull ms = ((word_of_int (GetTagsUsed ms) :: 32 word) \<ge> getMaxTagsLimit ms)"

text \<open>Version zero is the placeholder stored in the \<^verbatim>\<open>atomic.Value\<close>.\<close>

definition atomicGetImmutable :: "metricStore \<Rightarrow> tagIndex option" where
  "atomicGetImmutable ms =
     (case immutable ms of
        Some idx \<Rightarrow> if Version idx \<noteq> 0 then Some idx else None
      | None \<Rightarrow> None)"

definition IsEmpty :: "metricStore \<Rightarrow> bool" where
  "IsEmpty ms = (GetTagsInUse ms = 0 \<and> atomicGetImmutable ms = None)"

text \<open>
  \<^verbatim>\<open>Write\<close>: the result is \<^verbatim>\<open>(writtenSize, err)\<close> and the store as the call leaves
  it. \<^verbatim>\<open>ms.size\<close> is an \<^verbatim>\<open>atomic.Int32\<close>; \<^verbatim>\<open>int32(n)\<close> is \<^verbatim>\<open>word_of_int n\<close>.
\<close>

definition ms_Write ::
  "absentSizes \<Rightarrow> IDGenerator \<Rightarrow> metricStore \<Rightarrow> pbMetric \<Rightarrow> writeContext
     \<Rightarrow> (int \<times> error option) \<times> metricStore" where
  "ms_Write sz gen ms metric writeCtx =
     (if isFull ms then ((0, Some ErrTooManyTags), ms)
      else
        (case (case GetTStore (mutable ms) (Tags metric) of
                 Some (sid, ts) \<Rightarrow> (Inr (sid, ts, 0), ms)
               | None \<Rightarrow>
                   (case GetOrCreateTStore sz (mutable ms) (Tags metric) writeCtx of
                      (Inl err, idx') \<Rightarrow> (Inl err, ms\<lparr>mutable := idx'\<rparr>)
                    | (Inr (sid, ts, createdSize), idx') \<Rightarrow>
                        (Inr (sid, ts, createdSize),
                         ms\<lparr>mutable := idx', ms_size := ms_size ms + word_of_int createdSize\<rparr>))) of
           (Inl err, ms1) \<Rightarrow> ((0, Some err), ms1)
         | (Inr (sid, ts, createdSize), ms1) \<Rightarrow>
             (let ((writtenSize, err), ts', ms2) = ts_Write sz gen ts metric writeCtx ms1;
                  ms3 = ms2\<lparr>mutable := putTStore (mutable ms2) sid ts'\<rparr>;
                  ms4 = (if err = None
                         then ms3\<lparr>mutable := UpdateIndexTimeRange (mutable ms3) (PointTime writeCtx)\<rparr>
                         else ms3);
                  ms5 = ms4\<lparr>ms_size := ms_size ms4 + word_of_int writtenSize\<rparr>
              in ((writtenSize + createdSize, err), ms5))))"

text \<open>\<^verbatim>\<open>ResetVersion\<close>; \<^verbatim>\<open>now\<close> is the clock reading that \<^verbatim>\<open>newTagIndex\<close> takes as
  the version. The second test of the immutable slot is the double check under the lock.\<close>

definition ResetVersion ::
  "absentSizes \<Rightarrow> int \<Rightarrow> metricStore \<Rightarrow> (int \<times> error option) \<times> metricStore" where
  "ResetVersion sz now ms =
     (case atomicGetImmutable ms of
        Some _ \<Rightarrow> ((0, Some ErrResetVersionUnavailable), ms)
      | None \<Rightarrow>
          (case atomicGetImmutable ms of
             Some _ \<Rightarrow> ((0, Some ErrResetVersionUnavailable), ms)
           | None \<Rightarrow>
               (let ms1 = ms\<lparr>immutable := Some (mutable ms)\<rparr>;
                    ms2 = ms1\<lparr>mutable := newTagIndex now\<rparr>;
                    createdSize = idx_MemSize sz (mutable ms2)
                in ((createdSize, None), ms2\<lparr>ms_size := word_of_int createdSize\<rparr>))))"

definition FlushMetricsDataTo ::
  "absentSizes \<Rightarrow> metricStore \<Rightarrow> flusher \<Rightarrow> flushContext
     \<Rightarrow> (int \<times> error option) \<times> metricStore \<times> flusher" where
  "FlushMetricsDataTo sz ms fl flushCtx =
     (let fl1 = emit (EvFlushFieldMetas (fieldsMetas ms)) fl;
          (n1, mutable', fl2) = FlushVersionDataTo sz (mutable ms) fl1 flushCtx;
          imm = atomicGetImmutable ms;
          ms1 = ms\<lparr>mutable := mutable', immutable := Some staticNopTagIndex\<rparr>;
          (n2, fl3) = (case imm of
                         None \<Rightarrow> (0, fl2)
                       | Some idx \<Rightarrow>
                           (let (n, idx', fl') = FlushVersionDataTo sz idx fl2 flushCtx in (n, fl')));
          flushedSize = n1 + n2;
          ms2 = ms1\<lparr>ms_size := ms_size ms1 - word_of_int flushedSize\<rparr>
      in ((flushedSize, metricErr fl (fl_metricID flushCtx)),
          ms2, emit (EvFlushMetric (fl_metricID flushCtx)) fl3))"

definition ms_MemSize :: "absentSizes \<Rightarrow> metricStore \<Rightarrow> int" where
  "ms_MemSize sz ms =
     emptyMStoreSize + sint (ms_size ms) +
       (case atomicGetImmutable ms of None \<Rightarrow> 0 | Some idx \<Rightarrow> idx_MemSize sz idx)"

text \<open>
  The suggestions are collected in a Go map used as a set; it is modelled by a list without
  repetitions, whose order stands for the unspecified order of the map.
\<close>

definition HasPrefix :: "string \<Rightarrow> string \<Rightarrow> bool" where
  "HasPrefix s p = (length s \<ge> length p \<and> take (length p) s = p)"

fun prefixSearchTagKey :: "int \<Rightarrow> string \<Rightarrow> tagKVEntrySet list \<Rightarrow> string list \<Rightarrow> string list" where
  "prefixSearchTagKey limit tagKeyPrefix [] tagKeysMap = tagKeysMap"
| "prefixSearchTagKey limit tagKeyPrefix (entrySet # rest) tagKeysMap =
     (if int (length tagKeysMap) \<ge> limit then tagKeysMap
      else prefixSearchTagKey limit tagKeyPrefix rest
             (if HasPrefix (e_key entrySet) tagKeyPrefix
              then List.insert (e_key entrySet) tagKeysMap else tagKeysMap))"

definition ms_SuggestTagKeys :: "metricStore \<Rightarrow> string \<Rightarrow> int \<Rightarrow> string list" where
  "ms_SuggestTagKeys ms tagKeyPrefix limit =
     (if limit \<le> 0 then []
      else
        (let imm = atomicGetImmutable ms;
             m1 = prefixSearchTagKey limit tagKeyPrefix (GetTagKVEntrySets (mutable ms)) []
         in case imm of
              None \<Rightarrow> m1
            | Some idx \<Rightarrow> prefixSearchTagKey limit tagKeyPrefix (GetTagKVEntrySets idx) m1))"

fun collectTagValues :: "string \<Rightarrow> (string \<times> 32 word list) list \<Rightarrow> string list \<Rightarrow> string list" where
  "collectTagValues tagValuePrefix [] tagValuesMap = tagValuesMap"
| "collectTagValues tagValuePrefix ((tagValue, bitmap) # rest) tagValuesMap =
     collectTagValues tagValuePrefix rest
       (if HasPrefix tagValue tagValuePrefix then List.insert tagValue tagValuesMap else tagValuesMap)"

fun prefixSearchTagValue :: "int \<Rightarrow> string \<Rightarrow> tagKVEntrySet list \<Rightarrow> string list \<Rightarrow> string list" where
  "prefixSearchTagValue limit tagValuePrefix [] tagValuesMap = tagValuesMap"
| "prefixSearchTagValue limit tagValuePrefix (entrySet # rest) tagValuesMap =
     (if int (length tagValuesMap) \<ge> limit then tagValuesMap
      else prefixSearchTagValue limit tagValuePrefix rest
             (collectTagValues tagValuePrefix (e_values entrySet) tagValuesMap))"

definition ms_SuggestTagValues :: "metricStore \<Rightarrow> string \<Rightarrow> string \<Rightarrow> int \<Rightarrow> string list" where
  "ms_SuggestTagValues ms tagKey tagValuePrefix limit =
     (if limit \<le> 0 then []
      else
        (let limit' = (if limit > MaxSuggestions then MaxSuggestions else limit);
             imm = atomicGetImmutable ms;
             m1 = prefixSearchTagValue limit' tagValuePrefix (GetTagKVEntrySets (mutable ms)) []
         in case imm of
              None \<Rightarrow> m1
            | Some idx \<Rightarrow> prefixSearchTagValue limit' tagValuePrefix (GetTagKVEntrySets idx) m1))"

section \<open>Memory database (database.go)\<close>

text \<open>
  What the database takes from outside the sources: the hash \<^verbatim>\<open>xxhash.Sum64String\<close> and
  the sizes of the absent components.
\<close>

record env =
  Sum64String :: "string \<Rightarrow> 64 word"
  sizes :: absentSizes

record mStoresBucket =
  hash2MStore :: "(64 word \<times> metricStore) list"

text \<open>
  \<^verbatim>\<open>mStoresList\<close> is the array of \<^verbatim>\<open>shardingCountOfMStores\<close> buckets; the constant is
  not part of the sources and is the length of the list here, with
  \<^verbatim>\<open>shardingCountMask = shardingCountOfMStores - 1\<close>. \<^verbatim>\<open>familyTimes\<close> is a
  \<^verbatim>\<open>sync.Map\<close> used as a set.
\<close>

record memoryDatabase =
  timeWindow :: int
  md_interval :: int
  generator :: IDGenerator
  metricID2Hash :: "(32 word \<times> 64 word) list"
  mStoresList :: "mStoresBucket list"
  md_size :: "32 word"
  lastWroteFamilyTime :: int
  familyTimes :: "int set"

definition newMStoreBucket :: mStoresBucket where
  "newMStoreBucket = \<lparr>hash2MStore = []\<rparr>"

definition NewMemoryDatabase :: "nat \<Rightarrow> int \<Rightarrow> int \<Rightarrow> IDGenerator \<Rightarrow> memoryDatabase" where
  "NewMemoryDatabase shardingCount cfgTimeWindow cfgInterval cfgGenerator =
     \<lparr>timeWindow = cfgTimeWindow, md_interval = cfgInterval, generator = cfgGenerator,
      metricID2Hash = [], mStoresList = replicate shardingCount newMStoreBucket,
      md_size = 0, lastWroteFamilyTime = 0, familyTimes = {}\<rparr>"

definition shardingCountMask :: "memoryDatabase \<Rightarrow> 64 word" where
  "shardingCountMask md = word_of_nat (length (mStoresList md) - 1)"

definition bucketIndex :: "memoryDatabase \<Rightarrow> 64 word \<Rightarrow> nat" where
  "bucketIndex md metricHash = unat (shardingCountMask md AND metricHash)"

definition getBucket :: "memoryDatabase \<Rightarrow> 64 word \<Rightarrow> mStoresBucket" where
  "getBucket md metricHash = mStoresList md ! bucketIndex md metricHash"

definition getMStoreByMetricHash :: "memoryDatabase \<Rightarrow> 64 word \<Rightarrow> metricStore option" where
  "getMStoreByMetricHash md hash = map_of (hash2MStore (getBucket md hash)) hash"

definition getMStore :: "env \<Rightarrow> memoryDatabase \<Rightarrow> string \<Rightarrow> metricStore option" where
  "getMStore e md metricName = getMStoreByMetricHash md (Sum64String e metricName)"

definition getMStoreByMetricID :: "memoryDatabase \<Rightarrow> 32 word \<Rightarrow> metricStore option" where
  "getMStoreByMetricID md mid =
     (case map_of (metricID2Hash md) mid of
        None \<Rightarrow> None
      | Some hash \<Rightarrow> getMStoreByMetricHash md hash)"

text \<open>Assignment to a key of a Go map: the value of the key is replaced, or the key added.\<close>

fun mapPut :: "('k \<times> 'v) list \<Rightarrow> 'k \<Rightarrow> 'v \<Rightarrow> ('k \<times> 'v) list" where
  "mapPut [] k v = [(k, v)]"
| "mapPut ((k', v') # rest) k v =
     (if k' = k then (k, v) # rest else (k', v') # mapPut rest k v)"

definition putMStore :: "memoryDatabase \<Rightarrow> 64 word \<Rightarrow> metricStore \<Rightarrow> memoryDatabase" where
  "putMStore md hash ms =
     (let i = bucketIndex md hash; bkt = mStoresList md ! i in
      md\<lparr>mStoresList := (mStoresList md)[i := bkt\<lparr>hash2MStore := mapPut (hash2MStore bkt) hash ms\<rparr>]\<rparr>)"

text \<open>\<^verbatim>\<open>getOrCreateMStore\<close>; the lookup in the bucket under the lock is the double
  check.\<close>

definition getOrCreateMStore ::
  "env \<Rightarrow> memoryDatabase \<Rightarrow> int \<Rightarrow> string \<Rightarrow> 64 word \<Rightarrow> metricStore \<times> memoryDatabase" where
  "getOrCreateMStore e md now metricName hash =
     (case getMStoreByMetricHash md hash of
        Some mStore \<Rightarrow> (mStore, md)
      | None \<Rightarrow>
          (let mid = GenMetricID (generator md) metricName;
               bucket = getBucket md hash
           in case map_of (hash2MStore bucket) hash of
                Some mStore \<Rightarrow> (mStore, md)
              | None \<Rightarrow>
                  (let mStore = newMetricStore (sizes e) now mid;
                       md1 = md\<lparr>md_size := md_size md + word_of_int (ms_MemSize (sizes e) mStore)\<rparr>;
                       md2 = putMStore md1 hash mStore
                   in (mStore, md2\<lparr>metricID2Hash := mapPut (metricID2Hash md2) mid hash\<rparr>))))"

fun setLimitations :: "env \<Rightarrow> memoryDatabase \<Rightarrow> (string \<times> 32 word) list \<Rightarrow> memoryDatabase" where
  "setLimitations e md [] = md"
| "setLimitations e md ((metricName, limit) # rest) =
     (case getMStore e md metricName of
        None \<Rightarrow> setLimitations e md rest
      | Some mStore \<Rightarrow>
          setLimitations e (putMStore md (Sum64String e metricName) (SetMaxTagsLimit mStore limit)) rest)"

definition addFamilyTime :: "memoryDatabase \<Rightarrow> int \<Rightarrow> memoryDatabase" where
  "addFamilyTime md familyTime =
     (let old = lastWroteFamilyTime md;
          md1 = md\<lparr>lastWroteFamilyTime := familyTime\<rparr>
      in if old = familyTime then md1
         else md1\<lparr>familyTimes := insert familyTime (familyTimes md1)\<rparr>)"

text \<open>
  Modelled from the spec: the interval calculator of package timeutil is not part of the
  sources. A family is a window of \<^verbatim>\<open>TimeWindow\<close> slots of \<^verbatim>\<open>Interval\<close> milliseconds;
  the family time of a timestamp is the start of its window and the slot index its offset
  in the window, in intervals.
\<close>

definition CalcFamilyStartTime :: "memoryDatabase \<Rightarrow> int \<Rightarrow> int" where
  "CalcFamilyStartTime md timestamp =
     (let familyLength = timeWindow md * md_interval md in (timestamp div familyLength) * familyLength)"

definition CalcSlot :: "memoryDatabase \<Rightarrow> int \<Rightarrow> int \<Rightarrow> int" where
  "CalcSlot md timestamp familyTime = (timestamp - familyTime) div md_interval md"

text \<open>
  A bucket maps a hash to a pointer to a metric store. What a method changes of the store
  it reached through the pointer is seen in the bucket only if the bucket holds that
  pointer: the value of the hash is replaced where the bucket has the hash, and a bucket
  without the hash stays as it is.
\<close>

definition updateMStore :: "memoryDatabase \<Rightarrow> 64 word \<Rightarrow> metricStore \<Rightarrow> memoryDatabase" where
  "updateMStore md hash ms =
     (case getMStoreByMetricHash md hash of
        None \<Rightarrow> md
      | Some _ \<Rightarrow> putMStore md hash ms)"

text \<open>
  \<^verbatim>\<open>Write\<close>. The metric store is the one \<^verbatim>\<open>getOrCreateMStore\<close> returned, found or
  put into its bucket there; \<^verbatim>\<open>mStore.Write\<close> changes it in place, and \<^verbatim>\<open>Write\<close> itself
  assigns nothing to the bucket. \<^verbatim>\<open>now\<close> is the clock reading a new metric store takes
  as the version of its tag index.
\<close>

definition md_Write :: "env \<Rightarrow> memoryDatabase \<Rightarrow> int \<Rightarrow> pbMetric \<Rightarrow> error option \<times> memoryDatabase" where
  "md_Write e md now metric =
     (let timestamp = Timestamp metric;
          familyTime = CalcFamilyStartTime md timestamp;
          slotIndex = CalcSlot md timestamp familyTime;
          hash = Sum64String e (Name metric);
          (mStore, md1) = getOrCreateMStore e md now (Name metric) hash;
          ((writtenSize, err), mStore') =
             ms_Write (sizes e) (generator md1) mStore metric
               \<lparr>w_metricID = GetMetricID mStore, w_familyTime = familyTime,
                w_slotIndex = slotIndex, w_timeInterval = md_interval md1\<rparr>;
          md2 = updateMStore md1 hash mStore';
          md3 = (if err = None then addFamilyTime md2 familyTime else md2)
      in (err, md3\<lparr>md_size := md_size md3 + word_of_int writtenSize\<rparr>))"

definition ResetMetricStore :: "env \<Rightarrow> memoryDatabase \<Rightarrow> int \<Rightarrow> string \<Rightarrow> error option \<times> memoryDatabase" where
  "ResetMetricStore e md now metricName =
     (case getMStore e md metricName of
        None \<Rightarrow> (Some (ErrOther ''metric does not exist''), md)
      | Some mStore \<Rightarrow>
          (let ((createdSize, err), mStore') = ResetVersion (sizes e) now mStore;
               md1 = putMStore md (Sum64String e metricName) mStore'
           in (err, md1\<lparr>md_size := md_size md1 + word_of_int createdSize\<rparr>)))"

definition CountMetrics :: "memoryDatabase \<Rightarrow> int" where
  "CountMetrics md = sum_list (map (\<lambda>bkt. int (length (hash2MStore bkt))) (mStoresList md))"

definition CountTags :: "env \<Rightarrow> memoryDatabase \<Rightarrow> string \<Rightarrow> int" where
  "CountTags e md metricName =
     (case getMStore e md metricName of None \<Rightarrow> - 1 | Some mStore \<Rightarrow> GetTagsUsed mStore)"

definition Families :: "memoryDatabase \<Rightarrow> int list" where
  "Families md = sorted_list_of_set (familyTimes md)"

text \<open>
  \<^verbatim>\<open>FlushFamilyTo\<close>: the loops over the metric stores of a bucket and over the buckets.
  A Go map is walked in an unspecified order; the order of the list stands for it. The
  signal to the evictor, a separate goroutine, is not modelled.
\<close>

fun flushMStores ::
  "absentSizes \<Rightarrow> int \<Rightarrow> int \<Rightarrow> (64 word \<times> metricStore) list \<Rightarrow> flusher \<Rightarrow> 32 word
     \<Rightarrow> error option \<times> (64 word \<times> metricStore) list \<times> flusher \<times> 32 word" where
  "flushMStores sz timeInterval familyTime [] fl sizeCounter = (None, [], fl, sizeCounter)"
| "flushMStores sz timeInterval familyTime ((hash, mStore) # rest) fl sizeCounter =
     (let ((flushedSize, err), mStore', fl1) =
            FlushMetricsDataTo sz mStore fl
              \<lparr>fl_metricID = GetMetricID mStore, fl_familyTime = familyTime,
               fl_timeInterval = timeInterval\<rparr>;
          sizeCounter1 = sizeCounter - word_of_int flushedSize
      in case err of
           Some er \<Rightarrow> (Some er, (hash, mStore') # rest, fl1, sizeCounter1)
         | None \<Rightarrow>
             (let (err', rest', fl2, sizeCounter2) =
                    flushMStores sz timeInterval familyTime rest fl1 sizeCounter1
              in (err', (hash, mStore') # rest', fl2, sizeCounter2)))"

fun flushBuckets ::
  "absentSizes \<Rightarrow> int \<Rightarrow> int \<Rightarrow> mStoresBucket list \<Rightarrow> flusher \<Rightarrow> 32 word
     \<Rightarrow> error option \<times> mStoresBucket list \<times> flusher \<times> 32 word" where
  "flushBuckets sz timeInterval familyTime [] fl sizeCounter = (None, [], fl, sizeCounter)"
| "flushBuckets sz timeInterval familyTime (bkt # rest) fl sizeCounter =
     (let (err, stores', fl1, sizeCounter1) =
            flushMStores sz timeInterval familyTime (hash2MStore bkt) fl sizeCounter;
          bkt' = bkt\<lparr>hash2MStore := stores'\<rparr>
      in case err of
           Some er \<Rightarrow> (Some er, bkt' # rest, fl1, sizeCounter1)
         | None \<Rightarrow>
             (let (err', rest', fl2, sizeCounter2) =
                    flushBuckets sz timeInterval familyTime rest fl1 sizeCounter1
              in (err', bkt' # rest', fl2, sizeCounter2)))"

definition FlushFamilyTo ::
  "env \<Rightarrow> memoryDatabase \<Rightarrow> flusher \<Rightarrow> int \<Rightarrow> error option \<times> memoryDatabase \<times> flusher" where
  "FlushFamilyTo e md fl familyTime =
     (let md1 = md\<lparr>familyTimes := familyTimes md - {familyTime}\<rparr>;
          md2 = md1\<lparr>lastWroteFamilyTime := 0\<rparr>;
          (err, buckets', fl', sizeCounter') =
            flushBuckets (sizes e) (md_interval md2) familyTime (mStoresList md2) fl (md_size md2)
      in (err, md2\<lparr>mStoresList := buckets', md_size := sizeCounter'\<rparr>, fl'))"

definition md_MemSize :: "memoryDatabase \<Rightarrow> int" where
  "md_MemSize md = sint (md_size md)"

definition SuggestMetrics :: "memoryDatabase \<Rightarrow> string \<Rightarrow> int \<Rightarrow> string list" where
  "SuggestMetrics md metricPrefix limit = []"

definition SuggestTagKeys :: "env \<Rightarrow> memoryDatabase \<Rightarrow> string \<Rightarrow> string \<Rightarrow> int \<Rightarrow> string list" where
  "SuggestTagKeys e md metricName tagKeyPrefix limit =
     (case getMStore e md metricName of
        None \<Rightarrow> []
      | Some mStore \<Rightarrow> ms_SuggestTagKeys mStore tagKeyPrefix limit)"

definition SuggestTagValues ::
  "env \<Rightarrow> memoryDatabase \<Rightarrow> string \<Rightarrow> string \<Rightarrow> string \<Rightarrow> int \<Rightarrow> string list" where
  "SuggestTagValues e md metricName tagKey tagValuePrefix limit =
     (case getMStore e md metricName of
        None \<Rightarrow> []
      | Some mStore \<Rightarrow> ms_SuggestTagValues mStore tagKey tagValuePrefix limit)"

text \<open>The stores a database holds, for stating properties of all of them.\<close>

definition allMStores :: "memoryDatabase \<Rightarrow> metricStore list" where
  "allMStores md = concat (map (\<lambda>bkt. map snd (hash2MStore bkt)) (mStoresList md))"

definition idx_fieldStores :: "tagIndex \<Rightarrow> fieldStore list" where
  "idx_fieldStores idx = concat (map (\<lambda>(sid, ts). fStoreNodes ts) (seriesID2TStore idx))"

definition ms_fieldStores :: "metricStore \<Rightarrow> fieldStore list" where
  "ms_fieldStores ms =
     idx_fieldStores (mutable ms) @
       (case immutable ms of None \<Rightarrow> [] | Some idx \<Rightarrow> idx_fieldStores idx)"

definition md_fieldStores :: "memoryDatabase \<Rightarrow> fieldStore list" where
  "md_fieldStores md = concat (map ms_fieldStores (allMStores md))"

definition sumOfMemSizes :: "env \<Rightarrow> memoryDatabase \<Rightarrow> int" where
  "sumOfMemSizes e md = sum_list (map (ms_MemSize (sizes e)) (allMStores md))"

text \<open>The tag keys and the tag values that the tag-entry sets of the two indexes of a metric
  store hold, for stating what the suggestions are taken from.\<close>

definition idx_tagKeys :: "tagIndex \<Rightarrow> string set" where
  "idx_tagKeys idx = e_key ` set (GetTagKVEntrySets idx)"

definition idx_tagValues :: "tagIndex \<Rightarrow> string set" where
  "idx_tagValues idx = (\<Union>entrySet \<in> set (GetTagKVEntrySets idx). fst ` set (e_values entrySet))"

definition ms_tagKeys :: "metricStore \<Rightarrow> string set" where
  "ms_tagKeys ms =
     idx_tagKeys (mutable ms) \<union> (case atomicGetImmutable ms of None \<Rightarrow> {} | Some idx \<Rightarrow> idx_tagKeys idx)"

definition ms_tagValues :: "metricStore \<Rightarrow> string set" where
  "ms_tagValues ms =
     idx_tagValues (mutable ms) \<union>
       (case atomicGetImmutable ms of None \<Rightarrow> {} | Some idx \<Rightarrow> idx_tagValues idx)"

text \<open>
  The state of the segment lists that \<^verbatim>\<open>Write\<close> and the flush maintain: in every field
  store the segments are in ascending order of family time, each family time once.
\<close>

definition fs_ok :: "fieldStore \<Rightarrow> bool" where
  "fs_ok fs = (sorted (familyTimes_of fs) \<and> distinct (familyTimes_of fs))"

definition md_ok :: "memoryDatabase \<Rightarrow> bool" where
  "md_ok md = (mStoresList md \<noteq> [] \<and> (\<forall>fs \<in> set (md_fieldStores md). fs_ok fs))"

definition ms_ok :: "metricStore \<Rightarrow> bool" where
  "ms_ok ms = (\<forall>fs \<in> set (ms_fieldStores ms). fs_ok fs)"

definition ms_flushed :: "int \<Rightarrow> metricStore \<Rightarrow> bool" where
  "ms_flushed ft ms = (\<forall>fs \<in> set (ms_fieldStores ms). ft \<notin> set (familyTimes_of fs))"

definition bkt_ok :: "mStoresBucket \<Rightarrow> bool" where
  "bkt_ok bkt = (\<forall>(h, ms) \<in> set (hash2MStore bkt). ms_ok ms)"

text \<open>The calls on a memory database that change it, and a run of them from a database.\<close>

datatype mdOp =
    CallWrite int pbMetric
  | CallResetMetricStore int string
  | CallFlushFamilyTo flusher int
  | CallSetLimitations "(string \<times> 32 word) list"

fun md_step :: "env \<Rightarrow> memoryDatabase \<Rightarrow> mdOp \<Rightarrow> memoryDatabase" where
  "md_step e md (CallWrite now metric) = snd (md_Write e md now metric)"
| "md_step e md (CallResetMetricStore now metricName) = snd (ResetMetricStore e md now metricName)"
| "md_step e md (CallFlushFamilyTo fl familyTime) = fst (snd (FlushFamilyTo e md fl familyTime))"
| "md_step e md (CallSetLimitations limitations) = setLimitations e md limitations"

fun md_run :: "env \<Rightarrow> memoryDatabase \<Rightarrow> mdOp list \<Rightarrow> memoryDatabase" where
  "md_run e md [] = md"
| "md_run e md (call # calls) = md_run e (md_step e md call) calls"

section \<open>Channel manager (package replication)\<close>

text \<open>
  Modelled from the spec: the channel manager is not part of the sources; only its test
  is. \<^verbatim>\<open>CreateChannel(database, numShards, shard)\<close> validates
  \<^verbatim>\<open>0 \<le> shard < numShards\<close> (the error of the spec's scenario for
  a shard out of range is \<^verbatim>\<open>ErrShardConfigConflict\<close>); \<^verbatim>\<open>numShards\<close> must match any
  prior call for the same database, otherwise \<^verbatim>\<open>ErrShardConfigConflict\<close>; the manager owns
  all channels, one per database and shard, and returns the channel it already owns.
  \<^verbatim>\<open>ch_instance\<close> tells the channel instances apart: it is the number of channels the
  manager had created before this one.
\<close>

record channel =
  ch_instance :: nat
  ch_database :: string
  ch_shardID :: int

record channelManager =
  databaseShards :: "(string \<times> int) list"
  channels :: "((string \<times> int) \<times> channel) list"

definition NewChannelManager :: channelManager where
  "NewChannelManager = \<lparr>databaseShards = [], channels = []\<rparr>"

definition newChannel :: "channelManager \<Rightarrow> string \<Rightarrow> int \<Rightarrow> int \<Rightarrow> (error + channel) \<times> channelManager" where
  "newChannel cm database numShards shard =
     (let ch = \<lparr>ch_instance = length (channels cm), ch_database = database, ch_shardID = shard\<rparr>
      in (Inr ch,
          cm\<lparr>databaseShards := mapPut (databaseShards cm) database numShards,
             channels := mapPut (channels cm) (database, shard) ch\<rparr>))"

definition CreateChannel :: "channelManager \<Rightarrow> string \<Rightarrow> int \<Rightarrow> int \<Rightarrow> (error + channel) \<times> channelManager" where
  "CreateChannel cm database numShards shard =
     (if \<not> (0 \<le> shard \<and> shard < numShards) then (Inl ErrShardConfigConflict, cm)
      else
        (case map_of (databaseShards cm) database of
           Some n \<Rightarrow>
             if n \<noteq> numShards then (Inl ErrShardConfigConflict, cm)
             else
               (case map_of (channels cm) (database, shard) of
                  Some ch \<Rightarrow> (Inr ch, cm)
                | None \<Rightarrow> newChannel cm database numShards shard)
         | None \<Rightarrow> newChannel cm database numShards shard))"

text \<open>A run of calls of \<^verbatim>\<open>CreateChannel\<close>, each given by its three arguments.\<close>

fun cm_run :: "channelManager \<Rightarrow> (string \<times> int \<times> int) list \<Rightarrow> channelManager" where
  "cm_run cm [] = cm"
| "cm_run cm ((database, numShards, shard) # calls) =
     cm_run (snd (CreateChannel cm database numShards shard)) calls"
section \<open>Concrete inputs\<close>

definition sizes0 :: absentSizes where
  "sizes0 = \<lparr>emptySimpleFieldStoreSize = 16, blockSize = 80, emptyTimeSeriesStoreSize = 24, emptyTagIndexSize = 48\<rparr>"

definition seg10 :: sStore where
  "seg10 = newSimpleFieldStore 10 SumField"

definition sumField1 :: pbField where
  "sumField1 = \<lparr>f_Name = ''f1'', f_Field = Field_Sum 1\<rparr>"

definition ctx20 :: writeContext where
  "ctx20 = \<lparr>w_metricID = 1, w_familyTime = 20, w_slotIndex = 3, w_timeInterval = 10\<rparr>"

definition ops0 :: "fsOp list" where
  "ops0 = [OpWrite sumField1 ctx20, OpInsert seg10, OpWrite sumField1 ctx20, OpRemove 20, OpWrite sumField1 ctx20]"

definition toyHash :: "string \<Rightarrow> 64 word" where
  "toyHash s = word_of_nat (length s)"

definition env0 :: env where
  "env0 = \<lparr>Sum64String = toyHash, sizes = sizes0\<rparr>"

definition gen0 :: IDGenerator where
  "gen0 = \<lparr>GenMetricID = (\<lambda>metricName. word_of_nat (length metricName)),
           GenFieldID = (\<lambda>mid fieldName fieldTy. Inr (word_of_nat (length fieldName)))\<rparr>"

definition failingGen :: IDGenerator where
  "failingGen = \<lparr>GenMetricID = (\<lambda>metricName. word_of_nat (length metricName)),
                 GenFieldID = (\<lambda>mid fieldName fieldTy. Inl ErrWrongFieldType)\<rparr>"

definition cpuPoint :: pbMetric where
  "cpuPoint = \<lparr>Name = ''cpu'', Timestamp = 7210000, Tags = [(''host'', ''1.1.1.1'')],
               Fields = [sumField1]\<rparr>"

definition cpuCtx :: writeContext where
  "cpuCtx = \<lparr>w_metricID = 3, w_familyTime = 7200000, w_slotIndex = 1, w_timeInterval = 10000\<rparr>"

definition cpuStore :: metricStore where
  "cpuStore = snd (ms_Write sizes0 gen0 (newMetricStore sizes0 1000 3) cpuPoint cpuCtx)"

definition metasStore :: metricStore where
  "metasStore = (newMetricStore sizes0 1000 3)\<lparr>fieldsMetas := [\<lparr>m_Name = ''f1'', m_ID = 2, m_Type = SumField\<rparr>]\<rparr>"

definition db0 :: memoryDatabase where
  "db0 = NewMemoryDatabase 4 360 10000 gen0"

definition flusher0 :: flusher where
  "flusher0 = \<lparr>events = [], metricErr = (\<lambda>mid. None)\<rparr>"

definition db1 :: memoryDatabase where
  "db1 = snd (md_Write env0 db0 1000 cpuPoint)"

definition db2 :: memoryDatabase where
  "db2 = snd (ResetMetricStore env0 db1 2000 ''cpu'')"

definition db3 :: memoryDatabase where
  "db3 = fst (snd (FlushFamilyTo env0 db2 flusher0 7200000))"

definition fullStore :: metricStore where
  "fullStore = SetMaxTagsLimit cpuStore 1"

definition resetStore :: metricStore where
  "resetStore = snd (ResetVersion sizes0 2000 cpuStore)"

definition hostValue :: "nat \<Rightarrow> string \<times> 32 word list" where
  "hostValue n = (replicate n (CHR ''a''), [1])"

definition bigIndex :: tagIndex where
  "bigIndex = (newTagIndex 1000)\<lparr>tagKVEntrySets := [\<lparr>e_key = ''host'', e_values = map hostValue [0..<10001]\<rparr>]\<rparr>"

definition bigStore :: metricStore where
  "bigStore = (newMetricStore sizes0 1000 3)\<lparr>mutable := bigIndex\<rparr>"

definition bigDB :: memoryDatabase where
  "bigDB = putMStore db0 (toyHash ''cpu'') bigStore"

definition diskPoint :: pbMetric where
  "diskPoint = \<lparr>Name = ''cpu'', Timestamp = 7220000, Tags = [(''disk'', ''/tmp''), (''host'', ''1.1.1.2'')],
                Fields = [sumField1]\<rparr>"

definition db2w :: memoryDatabase where
  "db2w = snd (md_Write env0 db2 2500 diskPoint)"

definition dbF :: memoryDatabase where
  "dbF = NewMemoryDatabase 4 360 10000 failingGen"

definition zeroPoint :: pbMetric where
  "zeroPoint = \<lparr>Name = ''cpu'', Timestamp = 5, Tags = [(''host'', ''1.1.1.1'')], Fields = [sumField1]\<rparr>"

definition dbA :: memoryDatabase where
  "dbA = snd (md_Write env0 db1 1500 zeroPoint)"

definition dbB :: memoryDatabase where
  "dbB = fst (snd (FlushFamilyTo env0 dbA flusher0 0))"

definition dbC :: memoryDatabase where
  "dbC = snd (md_Write env0 dbB 1600 zeroPoint)"

definition latePoint :: pbMetric where
  "latePoint = \<lparr>Name = ''cpu'', Timestamp = 10800000, Tags = [(''host'', ''1.1.1.1'')],
                Fields = [sumField1]\<rparr>"

definition calls0 :: "mdOp list" where
  "calls0 = [CallWrite 1000 cpuPoint, CallResetMetricStore 2000 ''cpu'', CallWrite 2500 diskPoint,
             CallWrite 2600 latePoint]"

definition dbRun :: memoryDatabase where
  "dbRun = md_run env0 (NewMemoryDatabase 4 360 10000 gen0) calls0"

definition dbRunFlushed :: memoryDatabase where
  "dbRunFlushed = fst (snd (FlushFamilyTo env0 dbRun flusher0 7200000))"

definition fullMetasStore :: metricStore where
  "fullMetasStore =
     (newMetricStore sizes0 1000 3)\<lparr>fieldsMetas := replicate 1024 \<lparr>m_Name = ''f1'', m_ID = 2, m_Type = SumField\<rparr>\<rparr>"

definition db2wStore :: metricStore where
  "db2wStore = the (getMStore env0 db2w ''cpu'')"

definition dbFull :: memoryDatabase where
  "dbFull = setLimitations env0 db1 [(''cpu'', 1)]"

section \<open>Properties of the field store\<close>

declare search_loop.simps [simp del]

lemma search_loop_spec:
  assumes "i \<le> j" "j \<le> n"
    and "\<forall>a b. a \<le> b \<and> b < n \<and> f a \<longrightarrow> f b"
    and "\<forall>k<i. \<not> f k"
    and "\<forall>k. j \<le> k \<and> k < n \<longrightarrow> f k"
  shows "search_loop f i j \<le> j \<and>
         (\<forall>k. k < search_loop f i j \<longrightarrow> \<not> f k) \<and>
         (\<forall>k. search_loop f i j \<le> k \<and> k < n \<longrightarrow> f k)"
  using assms
proof (induction f i j rule: search_loop.induct)
  case (1 f i j)
  show ?case
  proof (cases "i < j")
    case False
    with "1.prems" have "i = j" by simp
    with "1.prems" show ?thesis by (simp add: search_loop.simps)
  next
    case True
    define h where "h = (i + j) div 2"
    have hb: "i \<le> h" "h < j" using True by (simp_all add: h_def)
    show ?thesis
    proof (cases "f h")
      case False
      have lo: "\<forall>k<h + 1. \<not> f k"
      proof (intro allI impI)
        fix k assume "k < h + 1"
        then have "k \<le> h" by simp
        with False "1.prems"(2,3) hb show "\<not> f k" by (meson less_le_trans)
      qed
      have eq: "search_loop f i j = search_loop f (h + 1) j"
        using True False by (subst search_loop.simps) (simp add: h_def Let_def)
      have "search_loop f (h + 1) j \<le> j \<and>
         (\<forall>k. k < search_loop f (h + 1) j \<longrightarrow> \<not> f k) \<and>
         (\<forall>k. search_loop f (h + 1) j \<le> k \<and> k < n \<longrightarrow> f k)"
        using "1.IH"(1)[OF True h_def False _ "1.prems"(2) "1.prems"(3) lo "1.prems"(5)] hb
        by simp
      with eq show ?thesis by simp
    next
      case fh: True
      have hi: "\<forall>k. h \<le> k \<and> k < n \<longrightarrow> f k"
        using fh "1.prems"(3) by blast
      have eq: "search_loop f i j = search_loop f i h"
        using True fh by (subst search_loop.simps) (simp add: h_def Let_def)
      have hn: "h \<le> n" using hb "1.prems"(2) by simp
      have "search_loop f i h \<le> h \<and>
         (\<forall>k. k < search_loop f i h \<longrightarrow> \<not> f k) \<and>
         (\<forall>k. search_loop f i h \<le> k \<and> k < n \<longrightarrow> f k)"
        using "1.IH"(2)[OF True h_def _ hb(1) hn "1.prems"(3) "1.prems"(4) hi] fh
        by simp
      with eq hb show ?thesis by simp
    qed
  qed
qed

lemma Search_sorted:
  assumes "sorted (map kf xs)"
  shows "Search (length xs) (\<lambda>i. ft \<le> kf (xs ! i)) \<le> length xs \<and>
    (\<forall>k. k < Search (length xs) (\<lambda>i. ft \<le> kf (xs ! i)) \<longrightarrow> kf (xs ! k) < (ft::int)) \<and>
    (\<forall>k. Search (length xs) (\<lambda>i. ft \<le> kf (xs ! i)) \<le> k \<and> k < length xs \<longrightarrow> ft \<le> kf (xs ! k))"
proof -
  let ?f = "\<lambda>i. ft \<le> kf (xs ! i)"
  have mono: "\<forall>a b. a \<le> b \<and> b < length xs \<and> ?f a \<longrightarrow> ?f b"
  proof (intro allI impI)
    fix a b assume h: "a \<le> b \<and> b < length xs \<and> ?f a"
    then have "map kf xs ! a \<le> map kf xs ! b"
      using assms by (simp add: sorted_iff_nth_mono del: nth_map)
    with h show "?f b" by simp
  qed
  have "search_loop ?f 0 (length xs) \<le> length xs \<and>
         (\<forall>k. k < search_loop ?f 0 (length xs) \<longrightarrow> \<not> ?f k) \<and>
         (\<forall>k. search_loop ?f 0 (length xs) \<le> k \<and> k < length xs \<longrightarrow> ?f k)"
    by (rule search_loop_spec[where n = "length xs"]) (use mono in simp_all)
  then show ?thesis by (simp add: Search_def not_le)
qed


lemma GetSStore_Some_iff:
  assumes "sorted (familyTimes_of fs)"
  shows "(GetSStore fs ft \<noteq> None) = (ft \<in> set (familyTimes_of fs))"
proof -
  let ?xs = "sStoreNodes fs"
  let ?r = "searchIdx fs ft"
  have S: "?r \<le> length ?xs"
    "\<forall>k. k < ?r \<longrightarrow> GetFamilyTime (?xs ! k) < ft"
    "\<forall>k. ?r \<le> k \<and> k < length ?xs \<longrightarrow> ft \<le> GetFamilyTime (?xs ! k)"
    using Search_sorted[of GetFamilyTime ?xs ft] assms
    by (simp_all add: searchIdx_def familyTimes_of_def)
  show ?thesis
  proof
    assume "GetSStore fs ft \<noteq> None"
    then have "?r < length ?xs \<and> GetFamilyTime (?xs ! ?r) = ft"
      by (simp add: GetSStore_def Let_def split: if_splits)
    then have "familyTimes_of fs ! ?r = ft" "?r < length (familyTimes_of fs)"
      by (simp_all add: familyTimes_of_def)
    then show "ft \<in> set (familyTimes_of fs)"
      by (metis nth_mem)
  next
    assume "ft \<in> set (familyTimes_of fs)"
    then obtain k where k: "k < length ?xs" "GetFamilyTime (?xs ! k) = ft"
      by (auto simp: familyTimes_of_def in_set_conv_nth)
    have rk: "?r \<le> k" using S(2) k by (meson not_le less_irrefl)
    then have rl: "?r < length ?xs" using k by simp
    have ge: "ft \<le> GetFamilyTime (?xs ! ?r)" using S(3) rl by simp
    have "map GetFamilyTime ?xs ! ?r \<le> map GetFamilyTime ?xs ! k"
      using assms rk k(1) by (simp add: familyTimes_of_def sorted_iff_nth_mono del: nth_map)
    then have "GetFamilyTime (?xs ! ?r) \<le> ft" using rl k by simp
    with ge rl show "GetSStore fs ft \<noteq> None"
      by (simp add: GetSStore_def Let_def)
  qed
qed

lemma GetSStore_Some_member:
  "GetSStore fs ft = Some s \<Longrightarrow> s \<in> set (sStoreNodes fs) \<and> GetFamilyTime s = ft"
  by (auto simp: GetSStore_def Let_def split: if_splits)

lemma sorted_remove_nth:
  assumes "sorted (xs::int list)"
  shows "sorted (take i xs @ drop (Suc i) xs)"
proof (cases "i < length xs")
  case True
  have "sorted (take i xs @ xs ! i # drop (Suc i) xs)"
    using assms id_take_nth_drop[OF True] by simp
  then show ?thesis by (auto simp: sorted_append)
next
  case False
  then show ?thesis using assms by simp
qed

lemma distinct_remove_nth:
  assumes "distinct (xs::int list)"
  shows "distinct (take i xs @ drop (Suc i) xs)"
proof (cases "i < length xs")
  case True
  have "distinct (take i xs @ xs ! i # drop (Suc i) xs)"
    using assms id_take_nth_drop[OF True] by simp
  then show ?thesis by auto
next
  case False
  then show ?thesis using assms by simp
qed

lemma removeSStore_cases:
  "familyTimes_of (removeSStore fs ft) = familyTimes_of fs \<or>
   familyTimes_of (removeSStore fs ft) =
     take (searchIdx fs ft) (familyTimes_of fs) @ drop (Suc (searchIdx fs ft)) (familyTimes_of fs)"
  by (simp add: removeSStore_def Let_def familyTimes_of_def take_map drop_map)

lemma removeSStore_sorted:
  "sorted (familyTimes_of fs) \<Longrightarrow> sorted (familyTimes_of (removeSStore fs ft))"
  using removeSStore_cases[of fs ft] sorted_remove_nth[of "familyTimes_of fs" "searchIdx fs ft"]
  by auto

lemma removeSStore_distinct:
  "distinct (familyTimes_of fs) \<Longrightarrow> distinct (familyTimes_of (removeSStore fs ft))"
  using removeSStore_cases[of fs ft] distinct_remove_nth[of "familyTimes_of fs" "searchIdx fs ft"]
  by auto

lemma insertSStore_sorted:
  "sorted (familyTimes_of (insertSStore fs s))"
  by (simp add: insertSStore_def familyTimes_of_def)

lemma distinct_map_sort_key:
  "distinct (map f (sort_key f ys)) = distinct (map f ys)"
  by (simp add: distinct_map)

lemma insertSStore_distinct:
  assumes "distinct (familyTimes_of fs)" "GetFamilyTime s \<notin> set (familyTimes_of fs)"
  shows "distinct (familyTimes_of (insertSStore fs s))"
  using assms by (simp add: insertSStore_def familyTimes_of_def distinct_map_sort_key)

lemma WriteFloat_familyTime:
  "GetFamilyTime (snd (WriteFloat sz s v writeCtx)) = GetFamilyTime s"
  by (simp add: WriteFloat_def GetFamilyTime_def split: option.splits)

lemma writeThrough_familyTimes:
  "familyTimes_of (snd (writeThrough sz fs v writeCtx)) = familyTimes_of fs"
proof -
  let ?idx = "searchIdx fs (w_familyTime writeCtx)"
  let ?xs = "sStoreNodes fs"
  have "map GetFamilyTime (?xs[?idx := snd (WriteFloat sz (?xs ! ?idx) v writeCtx)])
        = map GetFamilyTime ?xs"
  proof (cases "?idx < length ?xs")
    case True
    then show ?thesis by (simp add: map_update WriteFloat_familyTime list_update_same_conv)
  next
    case False
    then have "?xs[?idx := snd (WriteFloat sz (?xs ! ?idx) v writeCtx)] = ?xs"
      by (simp add: list_update_beyond)
    then show ?thesis by simp
  qed
  then show ?thesis
    by (simp add: writeThrough_def Let_def familyTimes_of_def split_beta)
qed

lemma insertSStore_familyTimes_set:
  "set (familyTimes_of (insertSStore fs s)) = insert (GetFamilyTime s) (set (familyTimes_of fs))"
  by (simp add: insertSStore_def familyTimes_of_def)

lemma fs_Write_sorted:
  "sorted (familyTimes_of (snd (fs_Write sz fs f writeCtx))) = 
     (sorted (familyTimes_of fs) \<or> (\<exists>v. f_Field f = Field_Sum v) \<and> GetSStore fs (w_familyTime writeCtx) = None)"
  by (simp add: fs_Write_def Let_def split_beta writeThrough_familyTimes insertSStore_sorted
      split: pbFieldValue.splits option.splits)

lemma fs_Write_distinct:
  assumes "sorted (familyTimes_of fs)" "distinct (familyTimes_of fs)"
  shows "distinct (familyTimes_of (snd (fs_Write sz fs f writeCtx)))"
proof (cases "(\<exists>v. f_Field f = Field_Sum v) \<and> GetSStore fs (w_familyTime writeCtx) = None")
  case True
  then obtain v where v: "f_Field f = Field_Sum v" and n: "GetSStore fs (w_familyTime writeCtx) = None"
    by blast
  have "w_familyTime writeCtx \<notin> set (familyTimes_of fs)"
    using GetSStore_Some_iff[OF assms(1), of "w_familyTime writeCtx"] n by simp
  then have "distinct (familyTimes_of (insertSStore fs (newSimpleFieldStore (w_familyTime writeCtx) SumField)))"
    using assms(2) by (intro insertSStore_distinct) (simp_all add: newSimpleFieldStore_def GetFamilyTime_def)
  then show ?thesis
    using v n by (simp add: fs_Write_def Let_def split_beta writeThrough_familyTimes)
next
  case False
  then show ?thesis using assms(2)
    by (auto simp: fs_Write_def Let_def split_beta writeThrough_familyTimes
      split: pbFieldValue.splits option.splits)
qed

lemma fs_step_sorted:
  "sorted (familyTimes_of fs) \<Longrightarrow> sorted (familyTimes_of (fs_step sz fs op))"
  by (cases op) (simp_all add: fs_Write_sorted insertSStore_sorted removeSStore_sorted)

lemma fs_run_sorted:
  "sorted (familyTimes_of fs) \<Longrightarrow> sorted (familyTimes_of (fs_run sz fs ops))"
  by (induction ops arbitrary: fs) (simp_all add: fs_step_sorted)

lemma fs_run_distinct:
  "sorted (familyTimes_of fs) \<Longrightarrow> distinct (familyTimes_of fs) \<Longrightarrow> insertsFresh sz fs ops
     \<Longrightarrow> distinct (familyTimes_of (fs_run sz fs ops))"
proof (induction ops arbitrary: fs)
  case Nil
  then show ?case by simp
next
  case (Cons op ops)
  show ?case
  proof (cases op)
    case (OpWrite f writeCtx)
    with Cons.prems Cons.IH[of "fs_step sz fs op"] show ?thesis
      by (simp add: fs_Write_sorted fs_Write_distinct)
  next
    case (OpInsert s)
    have "GetFamilyTime s \<notin> set (familyTimes_of fs)"
      using GetSStore_Some_iff[OF Cons.prems(1), of "GetFamilyTime s"] Cons.prems(3) OpInsert by simp
    with OpInsert Cons.prems Cons.IH[of "insertSStore fs s"] show ?thesis
      by (simp add: insertSStore_sorted insertSStore_distinct)
  next
    case (OpRemove ft)
    with Cons.prems Cons.IH[of "removeSStore fs ft"] show ?thesis
      by (simp add: removeSStore_sorted removeSStore_distinct)
  qed
qed

text \<open>
  Claim C8, as amended. After any run of \<^verbatim>\<open>Write\<close>, \<^verbatim>\<open>insertSStore\<close> and
  \<^verbatim>\<open>removeSStore\<close> on a new field store the segment list is in ascending order of family
  time, and \<^verbatim>\<open>GetSStore\<close> finds a segment for a family time exactly when the list holds
  one (the segment found is in the list and has that family time). Every family time
  appears at most once when \<^verbatim>\<open>insertSStore\<close> is only called for a family time that has
  no segment yet, which is how \<^verbatim>\<open>Write\<close> calls it.
\<close>

theorem fieldStore_segments:
  "sorted (familyTimes_of (fs_run sz (newFieldStore fid) ops)) \<and>
   (\<forall>ft. (GetSStore (fs_run sz (newFieldStore fid) ops) ft \<noteq> None) =
         (ft \<in> set (familyTimes_of (fs_run sz (newFieldStore fid) ops)))) \<and>
   (\<forall>ft s. GetSStore (fs_run sz (newFieldStore fid) ops) ft = Some s \<longrightarrow>
         s \<in> set (sStoreNodes (fs_run sz (newFieldStore fid) ops)) \<and> GetFamilyTime s = ft) \<and>
   (insertsFresh sz (newFieldStore fid) ops \<longrightarrow>
      distinct (familyTimes_of (fs_run sz (newFieldStore fid) ops)))"
proof -
  have e: "sorted (familyTimes_of (newFieldStore fid))" "distinct (familyTimes_of (newFieldStore fid))"
    by (simp_all add: newFieldStore_def familyTimes_of_def)
  have s: "sorted (familyTimes_of (fs_run sz (newFieldStore fid) ops))"
    by (rule fs_run_sorted[OF e(1)])
  show ?thesis
    using s GetSStore_Some_iff[OF s] GetSStore_Some_member fs_run_distinct[OF e]
    by blast
qed

text \<open>Witness for C8: a run with a guarded insert, two writes to one family and a removal.\<close>

theorem fieldStore_segments_witness:
  "insertsFresh sizes0 (newFieldStore 7) ops0 \<and>
   distinct (familyTimes_of (fs_run sizes0 (newFieldStore 7) ops0)) \<and>
   familyTimes_of (fs_run sizes0 (newFieldStore 7) ops0) = [10, 20] \<and>
   GetSStore (fs_run sizes0 (newFieldStore 7) ops0) 20 =
     Some \<lparr>s_familyTime = 20, s_aggFunc = SumField, s_block = Some [(3, 1)]\<rparr> \<and>
   \<lparr>s_familyTime = 20, s_aggFunc = SumField, s_block = Some [(3, 1)]\<rparr>
     \<in> set (sStoreNodes (fs_run sizes0 (newFieldStore 7) ops0)) \<and>
   GetSStore (fs_run sizes0 (newFieldStore 7) ops0) 15 = None"
proof -
  have f: "insertsFresh sizes0 (newFieldStore 7) ops0"
    by (simp add: ops0_def sizes0_def newFieldStore_def fs_Write_def sumField1_def ctx20_def seg10_def
     GetSStore_def searchIdx_def Search_def search_loop.simps insertSStore_def removeSStore_def
     newSimpleFieldStore_def GetFamilyTime_def writeThrough_def WriteFloat_def appendCap_def Let_def)
  have v: "familyTimes_of (fs_run sizes0 (newFieldStore 7) ops0) = [10, 20]"
    by (simp add: ops0_def sizes0_def newFieldStore_def fs_Write_def sumField1_def ctx20_def seg10_def
     GetSStore_def searchIdx_def Search_def search_loop.simps insertSStore_def removeSStore_def
     newSimpleFieldStore_def GetFamilyTime_def writeThrough_def WriteFloat_def appendCap_def Let_def
     familyTimes_of_def)
  have g: "GetSStore (fs_run sizes0 (newFieldStore 7) ops0) 20 =
     Some \<lparr>s_familyTime = 20, s_aggFunc = SumField, s_block = Some [(3, 1)]\<rparr>"
    by code_simp
  note t = fieldStore_segments[of sizes0 7 ops0]
  from t f have d: "distinct (familyTimes_of (fs_run sizes0 (newFieldStore 7) ops0))" by blast
  from t g have m: "\<lparr>s_familyTime = 20, s_aggFunc = SumField, s_block = Some [(3, 1)]\<rparr>
     \<in> set (sStoreNodes (fs_run sizes0 (newFieldStore 7) ops0))" by blast
  from t have "(GetSStore (fs_run sizes0 (newFieldStore 7) ops0) 15 \<noteq> None) =
      (15 \<in> set (familyTimes_of (fs_run sizes0 (newFieldStore 7) ops0)))" by blast
  then have n: "GetSStore (fs_run sizes0 (newFieldStore 7) ops0) 15 = None"
    unfolding v by simp
  from f v g d m n show ?thesis by simp
qed

text \<open>
  Counterexample to C8 as stated: \<^verbatim>\<open>insertSStore\<close> appends and sorts without looking for
  the family time, so inserting a segment of the same family twice leaves two of them.
\<close>

theorem insertSStore_duplicate_counterexample:
  "\<not> distinct (familyTimes_of (fs_run sizes0 (newFieldStore 7) [OpInsert seg10, OpInsert seg10]))"
  by (simp add: insertSStore_def familyTimes_of_def newFieldStore_def)

section \<open>Properties of the metric store\<close>

lemma GetFromName_Some: "GetFromName fms name = Some fm \<Longrightarrow> fm \<in> set fms \<and> m_Name fm = name"
  by (auto simp: GetFromName_def find_Some_iff)

lemma GetFromName_None: "(GetFromName fms name = None) = (name \<notin> m_Name ` set fms)"
  by (auto simp: GetFromName_def find_None_iff)

text \<open>
  Claim C7, as amended. \<^verbatim>\<open>GetFieldIDOrGenerate\<close> returns \<^verbatim>\<open>ErrWrongFieldType\<close> when the
  field name is in the field-meta list with another type and the ID of the meta when the
  type is the same; when the name is absent it returns \<^verbatim>\<open>ErrTooManyFields\<close> if the list
  holds at least \<^verbatim>\<open>TStoreMaxFieldsCount\<close> entries, and otherwise asks the generator: the
  new ID is returned and its meta appended to the list, or the error of the generator is
  returned and the store is left as it was.
\<close>

theorem GetFieldIDOrGenerate_spec:
  "(\<forall>fm. GetFromName (fieldsMetas ms) fieldName = Some fm \<and> m_Type fm \<noteq> fieldTy \<longrightarrow>
      GetFieldIDOrGenerate ms fieldName fieldTy gen = (Inl ErrWrongFieldType, ms)) \<and>
   (\<forall>fm. GetFromName (fieldsMetas ms) fieldName = Some fm \<and> m_Type fm = fieldTy \<longrightarrow>
      GetFieldIDOrGenerate ms fieldName fieldTy gen = (Inr (m_ID fm), ms)) \<and>
   (GetFromName (fieldsMetas ms) fieldName = None \<and> length (fieldsMetas ms) \<ge> TStoreMaxFieldsCount \<longrightarrow>
      GetFieldIDOrGenerate ms fieldName fieldTy gen = (Inl ErrTooManyFields, ms)) \<and>
   (\<forall>newID. GetFromName (fieldsMetas ms) fieldName = None \<and> length (fieldsMetas ms) < TStoreMaxFieldsCount \<and>
      GenFieldID gen (metricID ms) fieldName fieldTy = Inr newID \<longrightarrow>
      GetFieldIDOrGenerate ms fieldName fieldTy gen =
        (Inr newID, ms\<lparr>fieldsMetas := fieldsMetas ms @ [\<lparr>m_Name = fieldName, m_ID = newID, m_Type = fieldTy\<rparr>]\<rparr>)) \<and>
   (\<forall>err. GetFromName (fieldsMetas ms) fieldName = None \<and> length (fieldsMetas ms) < TStoreMaxFieldsCount \<and>
      GenFieldID gen (metricID ms) fieldName fieldTy = Inl err \<longrightarrow>
      GetFieldIDOrGenerate ms fieldName fieldTy gen = (Inl err, ms))"
  by (simp add: GetFieldIDOrGenerate_def Let_def metas_Insert_def)

text \<open>Witness for C7: a store with one sum field, asked for that field with both types and
  for a new field with a generator that answers and with one that fails; and a store of
  1024 field metas, asked for a new field.\<close>

theorem GetFieldIDOrGenerate_spec_witness:
  "GetFromName (fieldsMetas metasStore) ''f1'' = Some \<lparr>m_Name = ''f1'', m_ID = 2, m_Type = SumField\<rparr> \<and>
   GetFieldIDOrGenerate metasStore ''f1'' UnknownField gen0 = (Inl ErrWrongFieldType, metasStore) \<and>
   GetFieldIDOrGenerate metasStore ''f1'' SumField gen0 = (Inr 2, metasStore) \<and>
   GetFromName (fieldsMetas metasStore) ''f22'' = None \<and>
   length (fieldsMetas metasStore) < TStoreMaxFieldsCount \<and>
   GenFieldID gen0 (metricID metasStore) ''f22'' SumField = Inr 3 \<and>
   fst (GetFieldIDOrGenerate metasStore ''f22'' SumField gen0) = Inr 3 \<and>
   GenFieldID failingGen (metricID metasStore) ''f22'' SumField = Inl ErrWrongFieldType \<and>
   GetFieldIDOrGenerate metasStore ''f22'' SumField failingGen = (Inl ErrWrongFieldType, metasStore) \<and>
   GetFromName (fieldsMetas fullMetasStore) ''f22'' = None \<and>
   length (fieldsMetas fullMetasStore) \<ge> TStoreMaxFieldsCount \<and>
   GetFieldIDOrGenerate fullMetasStore ''f22'' SumField gen0 = (Inl ErrTooManyFields, fullMetasStore)"
proof -
  let ?fm = "\<lparr>m_Name = ''f1'', m_ID = 2, m_Type = SumField\<rparr>"
  have a: "GetFromName (fieldsMetas metasStore) ''f1'' = Some ?fm"
    by (simp add: metasStore_def GetFromName_def)
  have b: "GetFromName (fieldsMetas metasStore) ''f22'' = None"
    by (simp add: metasStore_def GetFromName_def)
  have c: "length (fieldsMetas metasStore) < TStoreMaxFieldsCount"
    by (simp add: metasStore_def TStoreMaxFieldsCount_def)
  have d: "GenFieldID gen0 (metricID metasStore) ''f22'' SumField = Inr 3"
    by (simp add: gen0_def)
  have e: "GenFieldID failingGen (metricID metasStore) ''f22'' SumField = Inl ErrWrongFieldType"
    by (simp add: failingGen_def)
  note s = GetFieldIDOrGenerate_spec[of metasStore]
  have 1: "GetFieldIDOrGenerate metasStore ''f1'' UnknownField gen0 = (Inl ErrWrongFieldType, metasStore)"
    using s[of "''f1''" UnknownField gen0] a by simp
  have 2: "GetFieldIDOrGenerate metasStore ''f1'' SumField gen0 = (Inr 2, metasStore)"
    using s[of "''f1''" SumField gen0] a by simp
  have 3: "fst (GetFieldIDOrGenerate metasStore ''f22'' SumField gen0) = Inr 3"
    using s[of "''f22''" SumField gen0] b c d by simp
  have 4: "GetFieldIDOrGenerate metasStore ''f22'' SumField failingGen = (Inl ErrWrongFieldType, metasStore)"
    using s[of "''f22''" SumField failingGen] b c e by simp
  have f: "GetFromName (fieldsMetas fullMetasStore) ''f22'' = None \<and>
      length (fieldsMetas fullMetasStore) \<ge> TStoreMaxFieldsCount"
    by (simp add: fullMetasStore_def GetFromName_None TStoreMaxFieldsCount_def)
  have 5: "GetFieldIDOrGenerate fullMetasStore ''f22'' SumField gen0 = (Inl ErrTooManyFields, fullMetasStore)"
    using GetFieldIDOrGenerate_spec[of fullMetasStore "''f22''" SumField gen0] f by simp
  from a b c d e f 1 2 3 4 5 show ?thesis by simp
qed

text \<open>
  Counterexample to C7 as stated: the field is absent and the list is below the limit, yet
  no field ID is returned, because the generator rejects the field.
\<close>

theorem GetFieldIDOrGenerate_generator_error_counterexample:
  "GetFromName (fieldsMetas metasStore) ''f22'' = None \<and>
   length (fieldsMetas metasStore) < TStoreMaxFieldsCount \<and>
   (\<nexists>fid. fst (GetFieldIDOrGenerate metasStore ''f22'' SumField failingGen) = Inr fid)"
  by (simp add: metasStore_def GetFromName_def TStoreMaxFieldsCount_def GetFieldIDOrGenerate_def
      failingGen_def newMetricStore_def Let_def)

text \<open>
  Claim C1. A metric store whose count of used tags is at least its tag limit rejects a
  write with \<^verbatim>\<open>ErrTooManyTags\<close> and is left exactly as it was: no series is created and no
  field data is written.
\<close>

theorem Write_full_rejected:
  assumes "uint (getMaxTagsLimit ms) \<le> GetTagsUsed ms"
  shows "ms_Write sz gen ms metric writeCtx = ((0, Some ErrTooManyTags), ms)"
proof -
  have "getMaxTagsLimit ms \<le> idCounter (mutable ms)"
    using assms by (simp add: GetTagsUsed_def TagsUsed_def word_le_def)
  then have "isFull ms"
    by (simp add: isFull_def GetTagsUsed_def TagsUsed_def)
  then show ?thesis by (simp add: ms_Write_def)
qed

text \<open>Witness for C1: the store of one series with the limit set to 1.\<close>

theorem Write_full_rejected_witness:
  "uint (getMaxTagsLimit fullStore) \<le> GetTagsUsed fullStore \<and>
   ms_Write sizes0 gen0 fullStore cpuPoint cpuCtx = ((0, Some ErrTooManyTags), fullStore)"
proof -
  have h: "uint (getMaxTagsLimit fullStore) \<le> GetTagsUsed fullStore"
    by code_simp
  from Write_full_rejected[OF h] h show ?thesis by simp
qed

text \<open>
  Claim C4. \<^verbatim>\<open>ResetVersion\<close> returns \<^verbatim>\<open>ErrResetVersionUnavailable\<close> and leaves the store
  unchanged when the immutable slot holds a tag index of non-zero version; otherwise it
  moves the mutable tag index into the immutable slot, installs a new tag index as the
  mutable one and returns no error.
\<close>

theorem ResetVersion_spec:
  "((\<exists>idx. immutable ms = Some idx \<and> Version idx \<noteq> 0) \<longrightarrow>
      ResetVersion sz now ms = ((0, Some ErrResetVersionUnavailable), ms)) \<and>
   (\<not> (\<exists>idx. immutable ms = Some idx \<and> Version idx \<noteq> 0) \<longrightarrow>
      ResetVersion sz now ms =
        ((idx_MemSize sz (newTagIndex now), None),
         ms\<lparr>immutable := Some (mutable ms), mutable := newTagIndex now,
            ms_size := word_of_int (idx_MemSize sz (newTagIndex now))\<rparr>))"
  by (auto simp: ResetVersion_def atomicGetImmutable_def Let_def split: option.splits)

text \<open>Witness for C4: a store with an empty immutable slot is reset, and the store so
  obtained refuses the next reset.\<close>

theorem ResetVersion_spec_witness:
  "\<not> (\<exists>idx. immutable cpuStore = Some idx \<and> Version idx \<noteq> 0) \<and>
   fst (ResetVersion sizes0 2000 cpuStore) = (idx_MemSize sizes0 (newTagIndex 2000), None) \<and>
   immutable resetStore = Some (mutable cpuStore) \<and>
   mutable resetStore = newTagIndex 2000 \<and>
   (\<exists>idx. immutable resetStore = Some idx \<and> Version idx \<noteq> 0) \<and>
   ResetVersion sizes0 3000 resetStore = ((0, Some ErrResetVersionUnavailable), resetStore)"
proof -
  have a: "\<not> (\<exists>idx. immutable cpuStore = Some idx \<and> Version idx \<noteq> 0)"
  proof -
    have "immutable cpuStore = None" by code_simp
    then show ?thesis by simp
  qed
  have r: "ResetVersion sizes0 2000 cpuStore =
        ((idx_MemSize sizes0 (newTagIndex 2000), None),
         cpuStore\<lparr>immutable := Some (mutable cpuStore), mutable := newTagIndex 2000,
            ms_size := word_of_int (idx_MemSize sizes0 (newTagIndex 2000))\<rparr>)"
    using ResetVersion_spec[of cpuStore sizes0 2000] a by blast
  have v: "Version (mutable cpuStore) = 1000" by code_simp
  have b: "\<exists>idx. immutable resetStore = Some idx \<and> Version idx \<noteq> 0"
    using v by (simp add: resetStore_def r)
  have c: "ResetVersion sizes0 3000 resetStore = ((0, Some ErrResetVersionUnavailable), resetStore)"
    using ResetVersion_spec[of resetStore sizes0 3000] b by blast
  from a b c r show ?thesis by (simp add: resetStore_def)
qed

section \<open>Lookup in the buckets of the database\<close>

lemma bucketIndex_lt:
  assumes "mStoresList md \<noteq> []"
  shows "bucketIndex md h < length (mStoresList md)"
proof -
  have "unat (shardingCountMask md AND h) \<le> unat (shardingCountMask md)"
    by (simp add: word_le_nat_alt[symmetric] word_and_le2)
  also have "\<dots> \<le> length (mStoresList md) - 1"
    by (simp add: shardingCountMask_def unat_of_nat)
  also have "\<dots> < length (mStoresList md)"
    using assms by (cases "mStoresList md") simp_all
  finally show ?thesis by (simp add: bucketIndex_def)
qed

lemma map_of_mapPut: "map_of (mapPut xs k v) = (map_of xs)(k \<mapsto> v)"
  by (induction xs) (auto simp: fun_eq_iff)

lemma bucketIndex_putMStore: "bucketIndex (putMStore md h ms) h' = bucketIndex md h'"
  by (simp add: bucketIndex_def shardingCountMask_def putMStore_def Let_def)

lemma getMStoreByMetricHash_putMStore:
  assumes "mStoresList md \<noteq> []"
  shows "getMStoreByMetricHash (putMStore md h ms) h' =
           (if h' = h then Some ms else getMStoreByMetricHash md h')"
proof -
  have lt: "bucketIndex md h < length (mStoresList md)" "bucketIndex md h' < length (mStoresList md)"
    using assms by (simp_all add: bucketIndex_lt)
  define i where "i = bucketIndex md h"
  define bkt' where "bkt' = (mStoresList md ! i)\<lparr>hash2MStore := mapPut (hash2MStore (mStoresList md ! i)) h ms\<rparr>"
  have l: "mStoresList (putMStore md h ms) = (mStoresList md)[i := bkt']"
    by (simp add: putMStore_def Let_def i_def bkt'_def)
  have g: "getMStoreByMetricHash (putMStore md h ms) h' =
      map_of (hash2MStore ((mStoresList md)[i := bkt'] ! bucketIndex md h')) h'"
    by (simp add: getMStoreByMetricHash_def getBucket_def bucketIndex_putMStore l)
  have o: "getMStoreByMetricHash md h' = map_of (hash2MStore (mStoresList md ! bucketIndex md h')) h'"
    by (simp add: getMStoreByMetricHash_def getBucket_def)
  show ?thesis
  proof (cases "bucketIndex md h' = i")
    case True
    then have "(mStoresList md)[i := bkt'] ! bucketIndex md h' = bkt'"
      using lt(1) by (simp add: i_def)
    then have "getMStoreByMetricHash (putMStore md h ms) h' = map_of (hash2MStore bkt') h'"
      unfolding g by simp
    also have "\<dots> = ((map_of (hash2MStore (mStoresList md ! i)))(h \<mapsto> ms)) h'"
      by (simp add: bkt'_def map_of_mapPut)
    finally show ?thesis unfolding o True by simp
  next
    case False
    then have n: "(mStoresList md)[i := bkt'] ! bucketIndex md h' = mStoresList md ! bucketIndex md h'"
      by simp
    have "h' \<noteq> h" using False by (auto simp: i_def)
    then show ?thesis unfolding g n o by simp
  qed
qed

lemma db0_nonempty: "mStoresList db0 \<noteq> []"
  by (simp add: db0_def NewMemoryDatabase_def)

lemma getMStoreByMetricHash_cong:
  "mStoresList md' = mStoresList md \<Longrightarrow> getMStoreByMetricHash md' h = getMStoreByMetricHash md h"
  by (simp add: getMStoreByMetricHash_def getBucket_def bucketIndex_def shardingCountMask_def)

lemma updateMStore_stored:
  "getMStoreByMetricHash md h = Some ms0 \<Longrightarrow> updateMStore md h ms = putMStore md h ms"
  by (simp add: updateMStore_def)

lemma updateMStore_absent:
  "getMStoreByMetricHash md h = None \<Longrightarrow> updateMStore md h ms = md"
  by (simp add: updateMStore_def)

lemma getOrCreateMStore_new:
  assumes "getMStoreByMetricHash md h = None"
  shows "fst (getOrCreateMStore e md now name h) =
           newMetricStore (sizes e) now (GenMetricID (generator md) name)"
proof -
  have "map_of (hash2MStore (getBucket md h)) h = None"
    using assms by (simp add: getMStoreByMetricHash_def)
  then show ?thesis using assms by (simp add: getOrCreateMStore_def Let_def)
qed

lemma getOrCreateMStore_found:
  "getMStoreByMetricHash md h = Some ms \<Longrightarrow> getOrCreateMStore e md now name h = (ms, md)"
  by (simp add: getOrCreateMStore_def)

text \<open>The metric store that \<^verbatim>\<open>getOrCreateMStore\<close> returns is in the bucket of its hash
  afterwards, whether it was found there or put there.\<close>

lemma getOrCreateMStore_stored:
  assumes "mStoresList md \<noteq> []"
  shows "getMStoreByMetricHash (snd (getOrCreateMStore e md now name h)) h =
           Some (fst (getOrCreateMStore e md now name h))"
proof (cases "getMStoreByMetricHash md h")
  case (Some ms)
  then show ?thesis by (simp add: getOrCreateMStore_found)
next
  case None
  define ms where "ms = newMetricStore (sizes e) now (GenMetricID (generator md) name)"
  define md1 where "md1 = md\<lparr>md_size := md_size md + word_of_int (ms_MemSize (sizes e) ms)\<rparr>"
  have n: "map_of (hash2MStore (getBucket md h)) h = None"
    using None by (simp add: getMStoreByMetricHash_def)
  have eq: "getOrCreateMStore e md now name h =
      (ms, (putMStore md1 h ms)\<lparr>metricID2Hash :=
              mapPut (metricID2Hash (putMStore md1 h ms)) (GenMetricID (generator md) name) h\<rparr>)"
    using None n by (simp add: getOrCreateMStore_def Let_def ms_def md1_def)
  have ne: "mStoresList md1 \<noteq> []" using assms by (simp add: md1_def)
  have "getMStoreByMetricHash (snd (getOrCreateMStore e md now name h)) h =
      getMStoreByMetricHash (putMStore md1 h ms) h"
    unfolding eq by (rule getMStoreByMetricHash_cong) simp
  also have "\<dots> = Some ms" by (simp add: getMStoreByMetricHash_putMStore[OF ne])
  finally show ?thesis unfolding eq by simp
qed

section \<open>Properties of the suggestions\<close>

lemma set_List_insert: "set (List.insert x xs) = insert x (set xs)"
  by simp

lemma length_List_insert_le: "length (List.insert x xs) \<le> Suc (length xs)"
  by (simp add: List.insert_def)

lemma prefixSearchTagKey_set:
  "set (prefixSearchTagKey limit p es acc) \<subseteq> set acc \<union> {k \<in> e_key ` set es. HasPrefix k p}"
proof (induction es arbitrary: acc)
  case Nil
  then show ?case by simp
next
  case (Cons e es)
  define acc' where "acc' = (if HasPrefix (e_key e) p then List.insert (e_key e) acc else acc)"
  have eq: "prefixSearchTagKey limit p (e # es) acc =
      (if limit \<le> int (length acc) then acc else prefixSearchTagKey limit p es acc')"
    by (simp add: acc'_def)
  have a: "set acc' \<subseteq> set acc \<union> {k \<in> e_key ` set (e # es). HasPrefix k p}"
    by (auto simp: acc'_def)
  have "set (prefixSearchTagKey limit p es acc') \<subseteq> set acc' \<union> {k \<in> e_key ` set es. HasPrefix k p}"
    by (rule Cons.IH)
  with a have "set (prefixSearchTagKey limit p es acc')
      \<subseteq> set acc \<union> {k \<in> e_key ` set (e # es). HasPrefix k p}"
    by auto
  then show ?case unfolding eq by auto
qed

lemma prefixSearchTagKey_length:
  "int (length (prefixSearchTagKey limit p es acc)) \<le> max (int (length acc)) limit"
proof (induction es arbitrary: acc)
  case Nil
  then show ?case by simp
next
  case (Cons e es)
  show ?case
  proof (cases "int (length acc) \<ge> limit")
    case True
    then show ?thesis by simp
  next
    case False
    let ?acc' = "if HasPrefix (e_key e) p then List.insert (e_key e) acc else acc"
    have "int (length ?acc') \<le> limit"
      using False length_List_insert_le[of "e_key e" acc] by auto
    with Cons.IH[of ?acc'] False show ?thesis by simp
  qed
qed

lemma prefixSearchTagKey_complete:
  "int (length acc) + int (length es) \<le> limit \<Longrightarrow>
   set (prefixSearchTagKey limit p es acc) = set acc \<union> {k \<in> e_key ` set es. HasPrefix k p}"
proof (induction es arbitrary: acc)
  case Nil
  then show ?case by simp
next
  case (Cons e es)
  define acc' where "acc' = (if HasPrefix (e_key e) p then List.insert (e_key e) acc else acc)"
  have l: "int (length acc') + int (length es) \<le> limit"
    using Cons.prems length_List_insert_le[of "e_key e" acc] by (auto simp: acc'_def)
  have n: "\<not> int (length acc) \<ge> limit" using Cons.prems by simp
  have eq: "prefixSearchTagKey limit p (e # es) acc = prefixSearchTagKey limit p es acc'"
    using n by (simp add: acc'_def)
  have a: "set acc' = set acc \<union> {k \<in> {e_key e}. HasPrefix k p}"
    by (auto simp: acc'_def)
  show ?case unfolding eq Cons.IH[OF l] a by auto
qed

lemma collectTagValues_set:
  "set (collectTagValues p vs acc) = set acc \<union> {v \<in> fst ` set vs. HasPrefix v p}"
proof (induction vs arbitrary: acc)
  case Nil
  then show ?case by simp
next
  case (Cons x vs)
  obtain v b where x: "x = (v, b)" by (cases x)
  define acc' where "acc' = (if HasPrefix v p then List.insert v acc else acc)"
  have eq: "collectTagValues p (x # vs) acc = collectTagValues p vs acc'"
    by (simp add: x acc'_def)
  have a: "set acc' = set acc \<union> {k \<in> {v}. HasPrefix k p}"
    by (auto simp: acc'_def)
  show ?case unfolding eq Cons.IH[of acc'] a by (auto simp: x)
qed

lemma collectTagValues_distinct:
  "distinct acc \<Longrightarrow> distinct (collectTagValues p vs acc)"
proof (induction vs arbitrary: acc)
  case Nil
  then show ?case by simp
next
  case (Cons x vs)
  obtain v b where x: "x = (v, b)" by (cases x)
  have "distinct (if HasPrefix v p then List.insert v acc else acc)"
    using Cons.prems by simp
  then show ?case unfolding x by (simp add: Cons.IH del: distinct_insert)
qed

lemma prefixSearchTagValue_set:
  "set (prefixSearchTagValue limit p es acc) \<subseteq>
     set acc \<union> {v \<in> (\<Union>e \<in> set es. fst ` set (e_values e)). HasPrefix v p}"
proof (induction es arbitrary: acc)
  case Nil
  then show ?case by simp
next
  case (Cons e es)
  define acc' where "acc' = collectTagValues p (e_values e) acc"
  have eq: "prefixSearchTagValue limit p (e # es) acc =
      (if limit \<le> int (length acc) then acc else prefixSearchTagValue limit p es acc')"
    by (simp add: acc'_def)
  have a: "set acc' = set acc \<union> {v \<in> fst ` set (e_values e). HasPrefix v p}"
    by (simp add: acc'_def collectTagValues_set)
  have "set (prefixSearchTagValue limit p es acc')
      \<subseteq> set acc' \<union> {v \<in> (\<Union>e \<in> set es. fst ` set (e_values e)). HasPrefix v p}"
    by (rule Cons.IH)
  then have "set (prefixSearchTagValue limit p es acc')
      \<subseteq> set acc \<union> {v \<in> (\<Union>e \<in> set (e # es). fst ` set (e_values e)). HasPrefix v p}"
    unfolding a by auto
  then show ?case unfolding eq by auto
qed

lemma prefixSearchTagValue_complete:
  assumes "distinct acc" "finite A" "int (card A) < limit"
    "set acc \<union> {v \<in> (\<Union>e \<in> set es. fst ` set (e_values e)). HasPrefix v p} \<subseteq> A"
  shows "set (prefixSearchTagValue limit p es acc) =
     set acc \<union> {v \<in> (\<Union>e \<in> set es. fst ` set (e_values e)). HasPrefix v p}"
  using assms
proof (induction es arbitrary: acc)
  case Nil
  then show ?case by simp
next
  case (Cons e es)
  have "card (set acc) \<le> card A"
    using Cons.prems by (intro card_mono) auto
  then have n: "\<not> int (length acc) \<ge> limit"
    using Cons.prems(1,3) by (simp add: distinct_card)
  define acc' where "acc' = collectTagValues p (e_values e) acc"
  have d: "distinct acc'" using Cons.prems(1) by (simp add: acc'_def collectTagValues_distinct)
  have a: "set acc' = set acc \<union> {v \<in> fst ` set (e_values e). HasPrefix v p}"
    by (simp add: acc'_def collectTagValues_set)
  have sub: "set acc' \<union> {v \<in> (\<Union>e \<in> set es. fst ` set (e_values e)). HasPrefix v p}
      \<subseteq> set acc \<union> {v \<in> (\<Union>e \<in> set (e # es). fst ` set (e_values e)). HasPrefix v p}"
    unfolding a by auto
  have s: "set acc' \<union> {v \<in> (\<Union>e \<in> set es. fst ` set (e_values e)). HasPrefix v p} \<subseteq> A"
    by (rule subset_trans[OF sub Cons.prems(4)])
  have eq: "prefixSearchTagValue limit p (e # es) acc = prefixSearchTagValue limit p es acc'"
    using n by (simp add: acc'_def)
  show ?case unfolding eq Cons.IH[OF d Cons.prems(2,3) s] a by auto
qed

lemma ms_SuggestTagKeys_sound:
  assumes "k \<in> set (ms_SuggestTagKeys ms p limit)"
  shows "HasPrefix k p \<and> k \<in> ms_tagKeys ms"
proof -
  define m1 where "m1 = prefixSearchTagKey limit p (GetTagKVEntrySets (mutable ms)) []"
  have s1: "set m1 \<subseteq> {k \<in> idx_tagKeys (mutable ms). HasPrefix k p}"
    using prefixSearchTagKey_set[of limit p "GetTagKVEntrySets (mutable ms)" "[]"]
    by (simp add: m1_def idx_tagKeys_def)
  have pos: "\<not> limit \<le> 0" using assms by (auto simp: ms_SuggestTagKeys_def)
  show ?thesis
  proof (cases "atomicGetImmutable ms")
    case None
    then have "ms_SuggestTagKeys ms p limit = m1"
      using pos by (simp add: ms_SuggestTagKeys_def m1_def)
    with assms s1 show ?thesis by (auto simp: ms_tagKeys_def)
  next
    case (Some idx)
    then have "ms_SuggestTagKeys ms p limit = prefixSearchTagKey limit p (GetTagKVEntrySets idx) m1"
      using pos by (simp add: ms_SuggestTagKeys_def m1_def)
    moreover have "set (prefixSearchTagKey limit p (GetTagKVEntrySets idx) m1)
        \<subseteq> set m1 \<union> {k \<in> idx_tagKeys idx. HasPrefix k p}"
      using prefixSearchTagKey_set[of limit p "GetTagKVEntrySets idx" m1]
      by (simp add: idx_tagKeys_def)
    ultimately show ?thesis using assms s1 Some by (auto simp: ms_tagKeys_def)
  qed
qed

lemma ms_SuggestTagKeys_length:
  "int (length (ms_SuggestTagKeys ms p limit)) \<le> max 0 limit"
proof (cases "limit \<le> 0")
  case True
  then show ?thesis by (simp add: ms_SuggestTagKeys_def)
next
  case False
  define m1 where "m1 = prefixSearchTagKey limit p (GetTagKVEntrySets (mutable ms)) []"
  have 1: "int (length m1) \<le> limit"
    using prefixSearchTagKey_length[of limit p "GetTagKVEntrySets (mutable ms)" "[]"] False
    by (simp add: m1_def)
  have 2: "int (length (prefixSearchTagKey limit p es m1)) \<le> limit" for es
    using prefixSearchTagKey_length[of limit p es m1] 1 by simp
  show ?thesis
  proof (cases "atomicGetImmutable ms")
    case None
    then show ?thesis using False 1 by (simp add: ms_SuggestTagKeys_def m1_def)
  next
    case (Some idx)
    then show ?thesis using False 2[of "GetTagKVEntrySets idx"]
      by (simp add: ms_SuggestTagKeys_def m1_def)
  qed
qed

lemma prefixSearchTagKey_length_le:
  "length (prefixSearchTagKey limit p es acc) \<le> length acc + length es"
proof (induction es arbitrary: acc)
  case Nil
  then show ?case by simp
next
  case (Cons e es)
  define acc' where "acc' = (if HasPrefix (e_key e) p then List.insert (e_key e) acc else acc)"
  have eq: "prefixSearchTagKey limit p (e # es) acc =
      (if limit \<le> int (length acc) then acc else prefixSearchTagKey limit p es acc')"
    by (simp add: acc'_def)
  have "length acc' \<le> Suc (length acc)"
    using length_List_insert_le[of "e_key e" acc] by (simp add: acc'_def)
  with Cons.IH[of acc'] show ?case unfolding eq by simp
qed

lemma ms_SuggestTagKeys_complete:
  assumes "limit \<ge> int (length (GetTagKVEntrySets (mutable ms))) +
             (case atomicGetImmutable ms of None \<Rightarrow> 0 | Some idx \<Rightarrow> int (length (GetTagKVEntrySets idx)))"
    and "limit > 0"
  shows "set (ms_SuggestTagKeys ms p limit) = {k \<in> ms_tagKeys ms. HasPrefix k p}"
proof -
  define m1 where "m1 = prefixSearchTagKey limit p (GetTagKVEntrySets (mutable ms)) []"
  have l0: "int (length (GetTagKVEntrySets (mutable ms))) \<le> limit"
    using assms(1) by (simp split: option.splits)
  have s1: "set m1 = {k \<in> idx_tagKeys (mutable ms). HasPrefix k p}"
    using prefixSearchTagKey_complete[of "[]" "GetTagKVEntrySets (mutable ms)" limit p] l0
    by (simp add: m1_def idx_tagKeys_def)
  have l1: "length m1 \<le> length (GetTagKVEntrySets (mutable ms))"
    using prefixSearchTagKey_length_le[of limit p "GetTagKVEntrySets (mutable ms)" "[]"]
    by (simp add: m1_def)
  show ?thesis
  proof (cases "atomicGetImmutable ms")
    case None
    then have "ms_SuggestTagKeys ms p limit = m1"
      using assms(2) by (simp add: ms_SuggestTagKeys_def m1_def)
    with s1 None show ?thesis by (auto simp: ms_tagKeys_def)
  next
    case (Some idx)
    then have eq: "ms_SuggestTagKeys ms p limit = prefixSearchTagKey limit p (GetTagKVEntrySets idx) m1"
      using assms(2) by (simp add: ms_SuggestTagKeys_def m1_def)
    have "int (length m1) + int (length (GetTagKVEntrySets idx)) \<le> limit"
      using assms(1) l1 Some by simp
    then have "set (prefixSearchTagKey limit p (GetTagKVEntrySets idx) m1)
        = set m1 \<union> {k \<in> idx_tagKeys idx. HasPrefix k p}"
      using prefixSearchTagKey_complete[of m1 "GetTagKVEntrySets idx" limit p]
      by (simp add: idx_tagKeys_def)
    with eq s1 Some show ?thesis by (auto simp: ms_tagKeys_def)
  qed
qed

lemma ms_SuggestTagValues_sound:
  assumes "v \<in> set (ms_SuggestTagValues ms tagKey p limit)"
  shows "HasPrefix v p \<and> v \<in> ms_tagValues ms"
proof -
  define limit' where "limit' = (if limit > MaxSuggestions then MaxSuggestions else limit)"
  define m1 where "m1 = prefixSearchTagValue limit' p (GetTagKVEntrySets (mutable ms)) []"
  have s1: "set m1 \<subseteq> {k \<in> idx_tagValues (mutable ms). HasPrefix k p}"
    using prefixSearchTagValue_set[of limit' p "GetTagKVEntrySets (mutable ms)" "[]"]
    by (simp add: m1_def idx_tagValues_def)
  have pos: "\<not> limit \<le> 0" using assms by (auto simp: ms_SuggestTagValues_def)
  show ?thesis
  proof (cases "atomicGetImmutable ms")
    case None
    then have "ms_SuggestTagValues ms tagKey p limit = m1"
      using pos by (simp add: ms_SuggestTagValues_def m1_def limit'_def)
    with assms s1 show ?thesis by (auto simp: ms_tagValues_def)
  next
    case (Some idx)
    then have "ms_SuggestTagValues ms tagKey p limit = prefixSearchTagValue limit' p (GetTagKVEntrySets idx) m1"
      using pos by (simp add: ms_SuggestTagValues_def m1_def limit'_def)
    moreover have "set (prefixSearchTagValue limit' p (GetTagKVEntrySets idx) m1)
        \<subseteq> set m1 \<union> {k \<in> idx_tagValues idx. HasPrefix k p}"
      using prefixSearchTagValue_set[of limit' p "GetTagKVEntrySets idx" m1]
      by (simp add: idx_tagValues_def)
    ultimately show ?thesis using assms s1 Some by (auto simp: ms_tagValues_def)
  qed
qed

lemma prefixSearchTagValue_distinct:
  "distinct acc \<Longrightarrow> distinct (prefixSearchTagValue limit p es acc)"
  by (induction es arbitrary: acc) (simp_all add: collectTagValues_distinct)

lemma finite_idx_tagValues: "finite (idx_tagValues idx)"
  by (simp add: idx_tagValues_def)

lemma finite_ms_tagValues: "finite (ms_tagValues ms)"
  by (simp add: ms_tagValues_def finite_idx_tagValues split: option.splits)

lemma ms_SuggestTagValues_complete:
  assumes "int (card {v \<in> ms_tagValues ms. HasPrefix v p}) < min limit MaxSuggestions"
  shows "set (ms_SuggestTagValues ms tagKey p limit) = {v \<in> ms_tagValues ms. HasPrefix v p}"
proof -
  define limit' where "limit' = (if limit > MaxSuggestions then MaxSuggestions else limit)"
  define A where "A = {v \<in> ms_tagValues ms. HasPrefix v p}"
  define m1 where "m1 = prefixSearchTagValue limit' p (GetTagKVEntrySets (mutable ms)) []"
  have fin: "finite A" by (simp add: A_def finite_ms_tagValues)
  have c: "int (card A) < limit'" using assms by (simp add: A_def limit'_def)
  have pos: "limit > 0" using assms by (smt (verit) of_nat_0_le_iff)
  have sub1: "set [] \<union> {v \<in> (\<Union>e \<in> set (GetTagKVEntrySets (mutable ms)). fst ` set (e_values e)). HasPrefix v p} \<subseteq> A"
    by (auto simp: A_def ms_tagValues_def idx_tagValues_def)
  have s1: "set m1 = {v \<in> idx_tagValues (mutable ms). HasPrefix v p}"
    using prefixSearchTagValue_complete[OF _ fin c sub1] by (simp add: m1_def idx_tagValues_def)
  have d1: "distinct m1" by (simp add: m1_def prefixSearchTagValue_distinct)
  show ?thesis
  proof (cases "atomicGetImmutable ms")
    case None
    then have "ms_SuggestTagValues ms tagKey p limit = m1"
      using pos by (simp add: ms_SuggestTagValues_def m1_def limit'_def)
    with s1 None show ?thesis by (auto simp: ms_tagValues_def)
  next
    case (Some idx)
    then have eq: "ms_SuggestTagValues ms tagKey p limit = prefixSearchTagValue limit' p (GetTagKVEntrySets idx) m1"
      using pos by (simp add: ms_SuggestTagValues_def m1_def limit'_def)
    have sub2: "set m1 \<union> {v \<in> (\<Union>e \<in> set (GetTagKVEntrySets idx). fst ` set (e_values e)). HasPrefix v p} \<subseteq> A"
      using Some by (auto simp: s1 A_def ms_tagValues_def idx_tagValues_def)
    have "set (prefixSearchTagValue limit' p (GetTagKVEntrySets idx) m1)
        = set m1 \<union> {k \<in> idx_tagValues idx. HasPrefix k p}"
      using prefixSearchTagValue_complete[OF d1 fin c sub2] by (simp add: idx_tagValues_def)
    with eq s1 Some show ?thesis by (auto simp: ms_tagValues_def)
  qed
qed

text \<open>
  What the suggestions do guarantee, for every database, metric name, prefix and limit.
  \<^verbatim>\<open>SuggestMetrics\<close> returns no suggestion. Every string that \<^verbatim>\<open>SuggestTagKeys\<close>
  returns has the prefix and is a tag key of a tag-entry set of the mutable or of the
  immutable index of the metric's store, and there are at most \<^verbatim>\<open>limit\<close> of them: the
  limit is tested before every insertion. Every string that \<^verbatim>\<open>SuggestTagValues\<close> returns
  has the prefix and is a tag value of a tag-entry set of one of the two indexes, of
  whatever tag key, since the method does not read its \<^verbatim>\<open>tagKey\<close> argument. All the
  matching tag keys of both indexes are returned when the limit is at least the number of
  tag-entry sets, and all the matching tag values when they are fewer than the limit and
  than \<^verbatim>\<open>MaxSuggestions\<close>. With a limit that is not positive \<^verbatim>\<open>SuggestTagValues\<close>
  returns nothing.
\<close>

lemma Suggest_from_both_indexes:
  "SuggestMetrics md metricPrefix limit = [] \<and>
   (\<forall>k \<in> set (SuggestTagKeys e md metricName p limit).
      HasPrefix k p \<and> (\<exists>ms. getMStore e md metricName = Some ms \<and> k \<in> ms_tagKeys ms)) \<and>
   int (length (SuggestTagKeys e md metricName p limit)) \<le> max 0 limit \<and>
   (\<forall>v \<in> set (SuggestTagValues e md metricName tagKey p limit).
      HasPrefix v p \<and> (\<exists>ms. getMStore e md metricName = Some ms \<and> v \<in> ms_tagValues ms)) \<and>
   (\<forall>ms. getMStore e md metricName = Some ms \<and> 0 < limit \<and>
      int (length (GetTagKVEntrySets (mutable ms))) +
        (case atomicGetImmutable ms of None \<Rightarrow> 0 | Some idx \<Rightarrow> int (length (GetTagKVEntrySets idx)))
        \<le> limit \<longrightarrow>
      set (SuggestTagKeys e md metricName p limit) = {k \<in> ms_tagKeys ms. HasPrefix k p}) \<and>
   (\<forall>ms. getMStore e md metricName = Some ms \<and>
      int (card {v \<in> ms_tagValues ms. HasPrefix v p}) < min limit MaxSuggestions \<longrightarrow>
      set (SuggestTagValues e md metricName tagKey p limit) = {v \<in> ms_tagValues ms. HasPrefix v p}) \<and>
   (limit \<le> 0 \<longrightarrow> SuggestTagValues e md metricName tagKey p limit = [])"
proof -
  have 1: "SuggestMetrics md metricPrefix limit = []" by (simp add: SuggestMetrics_def)
  have 2: "HasPrefix k p \<and> (\<exists>ms. getMStore e md metricName = Some ms \<and> k \<in> ms_tagKeys ms)"
    if "k \<in> set (SuggestTagKeys e md metricName p limit)" for k
    using that
    by (cases "getMStore e md metricName") (auto simp: SuggestTagKeys_def dest: ms_SuggestTagKeys_sound)
  have 3: "int (length (SuggestTagKeys e md metricName p limit)) \<le> max 0 limit"
    by (cases "getMStore e md metricName") (simp_all add: SuggestTagKeys_def ms_SuggestTagKeys_length)
  have 4: "HasPrefix v p \<and> (\<exists>ms. getMStore e md metricName = Some ms \<and> v \<in> ms_tagValues ms)"
    if "v \<in> set (SuggestTagValues e md metricName tagKey p limit)" for v
    using that
    by (cases "getMStore e md metricName") (auto simp: SuggestTagValues_def dest: ms_SuggestTagValues_sound)
  have 5: "set (SuggestTagKeys e md metricName p limit) = {k \<in> ms_tagKeys ms. HasPrefix k p}"
    if "getMStore e md metricName = Some ms \<and> 0 < limit \<and>
      int (length (GetTagKVEntrySets (mutable ms))) +
        (case atomicGetImmutable ms of None \<Rightarrow> 0 | Some idx \<Rightarrow> int (length (GetTagKVEntrySets idx)))
        \<le> limit" for ms
    using that by (simp add: SuggestTagKeys_def ms_SuggestTagKeys_complete)
  have 6: "set (SuggestTagValues e md metricName tagKey p limit) = {v \<in> ms_tagValues ms. HasPrefix v p}"
    if "getMStore e md metricName = Some ms \<and>
      int (card {v \<in> ms_tagValues ms. HasPrefix v p}) < min limit MaxSuggestions" for ms
    using that by (simp add: SuggestTagValues_def ms_SuggestTagValues_complete)
  have 7: "SuggestTagValues e md metricName tagKey p limit = []" if "limit \<le> 0"
    using that
    by (cases "getMStore e md metricName") (simp_all add: SuggestTagValues_def ms_SuggestTagValues_def)
  from 1 2 3 4 5 6 7 show ?thesis by blast
qed

text \<open>An instance: a store whose immutable index holds one host and whose mutable index
  holds another; the suggestions come from both.\<close>

lemma Suggest_from_both_indexes_instance:
  "''host'' \<in> set (SuggestTagKeys env0 db2w ''cpu'' ''h'' 10) \<and>
   HasPrefix ''host'' ''h'' \<and>
   (\<exists>ms. getMStore env0 db2w ''cpu'' = Some ms \<and> ''host'' \<in> ms_tagKeys ms) \<and>
   ''1.1.1.1'' \<in> set (SuggestTagValues env0 db2w ''cpu'' ''host'' ''1.1'' 10) \<and>
   ''1.1.1.2'' \<in> set (SuggestTagValues env0 db2w ''cpu'' ''host'' ''1.1'' 10) \<and>
   (\<exists>ms. getMStore env0 db2w ''cpu'' = Some ms \<and> ''1.1.1.1'' \<in> ms_tagValues ms) \<and>
   int (length (SuggestTagKeys env0 db2w ''cpu'' ''h'' 10)) \<le> 10 \<and>
   getMStore env0 db2w ''cpu'' = Some db2wStore \<and>
   int (length (GetTagKVEntrySets (mutable db2wStore))) +
     (case atomicGetImmutable db2wStore of None \<Rightarrow> 0 | Some idx \<Rightarrow> int (length (GetTagKVEntrySets idx)))
     \<le> 10 \<and>
   set (SuggestTagKeys env0 db2w ''cpu'' ''h'' 10) = {''host''} \<and>
   int (card {v \<in> ms_tagValues db2wStore. HasPrefix v ''1.1''}) < min 10 MaxSuggestions \<and>
   set (SuggestTagValues env0 db2w ''cpu'' ''host'' ''1.1'' 10) = {''1.1.1.1'', ''1.1.1.2''} \<and>
   SuggestTagValues env0 db2w ''cpu'' ''host'' ''1.1'' 0 = []"
proof -
  have k: "''host'' \<in> set (SuggestTagKeys env0 db2w ''cpu'' ''h'' 10)" by code_simp
  have v1: "''1.1.1.1'' \<in> set (SuggestTagValues env0 db2w ''cpu'' ''host'' ''1.1'' 10)" by code_simp
  have v2: "''1.1.1.2'' \<in> set (SuggestTagValues env0 db2w ''cpu'' ''host'' ''1.1'' 10)" by code_simp
  note t = Suggest_from_both_indexes[of db2w "''''" 10 env0 "''cpu''" "''h''" "''host''"]
  note u = Suggest_from_both_indexes[of db2w "''''" 10 env0 "''cpu''" "''1.1''" "''host''"]
  from t k have 1: "HasPrefix ''host'' ''h'' \<and>
      (\<exists>ms. getMStore env0 db2w ''cpu'' = Some ms \<and> ''host'' \<in> ms_tagKeys ms)" by blast
  from u v1 have 2: "\<exists>ms. getMStore env0 db2w ''cpu'' = Some ms \<and> ''1.1.1.1'' \<in> ms_tagValues ms"
    by blast
  from t have 3: "int (length (SuggestTagKeys env0 db2w ''cpu'' ''h'' 10)) \<le> 10" by simp
  have g: "getMStore env0 db2w ''cpu'' = Some db2wStore"
  proof -
    have "getMStore env0 db2w ''cpu'' \<noteq> None" by code_simp
    then show ?thesis by (auto simp: db2wStore_def)
  qed
  have l: "int (length (GetTagKVEntrySets (mutable db2wStore))) +
     (case atomicGetImmutable db2wStore of None \<Rightarrow> 0 | Some idx \<Rightarrow> int (length (GetTagKVEntrySets idx)))
     \<le> 10" by code_simp
  have c: "int (card {v \<in> ms_tagValues db2wStore. HasPrefix v ''1.1''}) < min 10 MaxSuggestions"
    by code_simp
  have ks: "{k \<in> ms_tagKeys db2wStore. HasPrefix k ''h''} = {''host''}" by code_simp
  have vs: "{v \<in> ms_tagValues db2wStore. HasPrefix v ''1.1''} = {''1.1.1.1'', ''1.1.1.2''}"
    by code_simp
  note t5 = t[THEN conjunct2, THEN conjunct2, THEN conjunct2, THEN conjunct2, THEN conjunct1,
      rule_format, of db2wStore]
  note u6 = u[THEN conjunct2, THEN conjunct2, THEN conjunct2, THEN conjunct2, THEN conjunct2,
      THEN conjunct1, rule_format, of db2wStore]
  note z7 = Suggest_from_both_indexes[of db2w "[]" 0 env0 "''cpu''" "''1.1''" "''host''",
      THEN conjunct2, THEN conjunct2, THEN conjunct2, THEN conjunct2, THEN conjunct2,
      THEN conjunct2, rule_format]
  have "0 < (10::int)" by simp
  with g l have "set (SuggestTagKeys env0 db2w ''cpu'' ''h'' 10) =
      {k \<in> ms_tagKeys db2wStore. HasPrefix k ''h''}"
    by (intro t5 conjI)
  with ks have 4: "set (SuggestTagKeys env0 db2w ''cpu'' ''h'' 10) = {''host''}"
    by (simp only:)
  from g c have "set (SuggestTagValues env0 db2w ''cpu'' ''host'' ''1.1'' 10) =
      {v \<in> ms_tagValues db2wStore. HasPrefix v ''1.1''}"
    by (intro u6 conjI)
  with vs have 5: "set (SuggestTagValues env0 db2w ''cpu'' ''host'' ''1.1'' 10) =
      {''1.1.1.1'', ''1.1.1.2''}"
    by (simp only:)
  have 6: "SuggestTagValues env0 db2w ''cpu'' ''host'' ''1.1'' 0 = []"
    by (rule z7) simp
  show ?thesis
    by (intro conjI k v1 v2 1[THEN conjunct1] 1[THEN conjunct2] 2 3 g l c 4 5 6)
qed

lemma collectTagValues_length:
  "distinct (map fst vs) \<Longrightarrow> set (map fst vs) \<inter> set acc = {} \<Longrightarrow>
   length (collectTagValues [] vs acc) = length acc + length vs"
proof (induction vs arbitrary: acc)
  case Nil
  then show ?case by simp
next
  case (Cons x vs)
  obtain v b where x: "x = (v, b)" by (cases x)
  have eq: "collectTagValues [] (x # vs) acc = collectTagValues [] vs (v # acc)"
    using Cons.prems(2) by (simp add: x HasPrefix_def)
  have "length (collectTagValues [] vs (v # acc)) = length (v # acc) + length vs"
    using Cons.prems by (intro Cons.IH) (auto simp: x)
  then show ?case unfolding eq by simp
qed

lemma hostValues_distinct: "distinct (map fst (map hostValue [0..<n]))"
proof -
  have "inj_on (\<lambda>k. replicate k (CHR ''a'')) A" for A
    by (rule inj_onI) (metis length_replicate)
  then show ?thesis
    by (simp add: distinct_map hostValue_def comp_def)
qed

lemma getMStore_bigDB: "getMStore env0 bigDB ''cpu'' = Some bigStore"
  by (simp add: bigDB_def getMStore_def env0_def getMStoreByMetricHash_putMStore db0_nonempty)

lemma SuggestTagValues_bigStore:
  "0 < limit \<Longrightarrow>
   ms_SuggestTagValues bigStore tagKey [] limit = collectTagValues [] (map hostValue [0..<10001]) []"
  by (simp add: ms_SuggestTagValues_def MaxSuggestions_def bigStore_def atomicGetImmutable_def
      newMetricStore_def bigIndex_def GetTagKVEntrySets_def newTagIndex_def Let_def)

lemma SuggestTagValues_ignores_tagKey:
  "SuggestTagValues e md metricName tagKey p limit = SuggestTagValues e md metricName tagKey' p limit"
  by (simp add: SuggestTagValues_def ms_SuggestTagValues_def split: option.splits)

text \<open>
  Claim C9 fails in the code. The metric store of \<^verbatim>\<open>cpu\<close> in \<^verbatim>\<open>bigDB\<close> has one
  tag-entry set, of the tag key \<^verbatim>\<open>host\<close>, with 10001 tag values, and no immutable index.
  \<^verbatim>\<open>SuggestTagValues\<close> with the empty prefix and the limit 10000, which is
  \<^verbatim>\<open>MaxSuggestions\<close>, returns 10001 suggestions, and so it does with the limit 20000,
  which it lowers to \<^verbatim>\<open>MaxSuggestions\<close>: the number of collected values is compared
  with the limit before a tag-entry set is entered and not while its values are collected.
  For the tag key \<^verbatim>\<open>zone\<close>, which the store does not have, the method returns the same
  10001 values of \<^verbatim>\<open>host\<close>.
\<close>

theorem SuggestTagValues_exceeds_MaxSuggestions:
  "MaxSuggestions = 10000 \<and>
   getMStore env0 bigDB ''cpu'' = Some bigStore \<and>
   map e_key (GetTagKVEntrySets (mutable bigStore)) = [''host''] \<and>
   atomicGetImmutable bigStore = None \<and>
   length (SuggestTagValues env0 bigDB ''cpu'' ''host'' '''' 10000) = 10001 \<and>
   length (SuggestTagValues env0 bigDB ''cpu'' ''host'' '''' 20000) = 10001 \<and>
   length (SuggestTagValues env0 bigDB ''cpu'' ''zone'' '''' 10000) = 10001"
proof -
  have l: "length (collectTagValues [] (map hostValue [0..<10001]) []) = 10001"
    using collectTagValues_length[where vs = "map hostValue [0..<10001]" and acc = "[]"]
      hostValues_distinct[of 10001]
    by simp
  have 1: "MaxSuggestions = 10000" by (simp add: MaxSuggestions_def)
  have 2: "getMStore env0 bigDB ''cpu'' = Some bigStore" by (rule getMStore_bigDB)
  have 3: "map e_key (GetTagKVEntrySets (mutable bigStore)) = [''host'']"
    by (simp add: bigStore_def bigIndex_def GetTagKVEntrySets_def)
  have 4: "atomicGetImmutable bigStore = None"
    by (simp add: bigStore_def atomicGetImmutable_def newMetricStore_def Let_def)
  have 5: "length (SuggestTagValues env0 bigDB ''cpu'' tagKey '''' limit) = 10001"
    if "0 < limit" for tagKey limit
    using that by (simp add: SuggestTagValues_def getMStore_bigDB SuggestTagValues_bigStore l)
  have 6: "length (SuggestTagValues env0 bigDB ''cpu'' ''host'' '''' 10000) = 10001"
    by (rule 5) simp
  have 7: "length (SuggestTagValues env0 bigDB ''cpu'' ''host'' '''' 20000) = 10001"
    by (rule 5) simp
  have 8: "length (SuggestTagValues env0 bigDB ''cpu'' ''zone'' '''' 10000) = 10001"
    by (rule 5) simp
  show ?thesis by (intro conjI 1 2 3 4 6 7 8)
qed
section \<open>Properties of the memory database\<close>

lemma putMStore_other [simp]:
  "familyTimes (putMStore md h ms) = familyTimes md"
  "lastWroteFamilyTime (putMStore md h ms) = lastWroteFamilyTime md"
  "md_size (putMStore md h ms) = md_size md"
  "generator (putMStore md h ms) = generator md"
  "md_interval (putMStore md h ms) = md_interval md"
  "timeWindow (putMStore md h ms) = timeWindow md"
  "length (mStoresList (putMStore md h ms)) = length (mStoresList md)"
  by (simp_all add: putMStore_def Let_def)

lemma updateMStore_other [simp]:
  "familyTimes (updateMStore md h ms) = familyTimes md"
  "lastWroteFamilyTime (updateMStore md h ms) = lastWroteFamilyTime md"
  "md_size (updateMStore md h ms) = md_size md"
  "generator (updateMStore md h ms) = generator md"
  "md_interval (updateMStore md h ms) = md_interval md"
  "timeWindow (updateMStore md h ms) = timeWindow md"
  "length (mStoresList (updateMStore md h ms)) = length (mStoresList md)"
  by (simp_all add: updateMStore_def split: option.splits)

lemma getOrCreateMStore_generator:
  "generator (snd (getOrCreateMStore e md now name h)) = generator md"
  by (simp add: getOrCreateMStore_def Let_def split: option.splits)

lemma writeFields_metricID:
  "metricID (snd (snd (writeFields sz gen writeCtx flds ts getter acc))) = metricID getter"
proof (induction flds arbitrary: ts getter acc)
  case Nil
  then show ?case by simp
next
  case (Cons f flds)
  define r where "r = GetFieldIDOrGenerate getter (f_Name f) (getFieldType f) gen"
  have g: "metricID (snd r) = metricID getter"
    by (simp add: r_def GetFieldIDOrGenerate_def Let_def split: option.splits sum.splits)
  show ?case
  proof (cases "fst r")
    case (Inl err)
    then have "writeFields sz gen writeCtx (f # flds) ts getter acc = ((acc, Some err), ts, snd r)"
      by (simp add: r_def split_beta split: prod.splits)
    then show ?thesis using g by simp
  next
    case (Inr fid)
    define c where "c = (case GetFStore ts fid of
                    Some _ \<Rightarrow> (0, ts)
                  | None \<Rightarrow> (fs_MemSize sz (newFieldStore fid), insertFStore ts (newFieldStore fid)))"
    define w where "w = writeFStore sz (fStoreNodes (snd c)) fid f writeCtx"
    define ts2 where "ts2 = (snd c)\<lparr>fStoreNodes := snd w\<rparr>"
    have eq: "writeFields sz gen writeCtx (f # flds) ts getter acc =
        writeFields sz gen writeCtx flds ts2 (snd r) (acc + fst c + fst w)"
      using Inr by (simp add: r_def split_beta Let_def c_def w_def ts2_def split: prod.splits)
    show ?thesis unfolding eq using Cons.IH[of ts2 "snd r"] g by simp
  qed
qed

text \<open>\<^verbatim>\<open>Write\<close> of a metric store leaves its metric ID as it is.\<close>

lemma ms_Write_metricID:
  "GetMetricID (snd (ms_Write sz gen ms metric writeCtx)) = GetMetricID ms"
proof (cases "isFull ms")
  case True
  then show ?thesis by (simp add: ms_Write_def)
next
  case False
  define g where "g = (case GetTStore (mutable ms) (Tags metric) of
                 Some (sid, ts) \<Rightarrow> (Inr (sid, ts, 0), ms)
               | None \<Rightarrow>
                   (case GetOrCreateTStore sz (mutable ms) (Tags metric) writeCtx of
                      (Inl err, idx') \<Rightarrow> (Inl err, ms\<lparr>mutable := idx'\<rparr>)
                    | (Inr (sid, ts, createdSize), idx') \<Rightarrow>
                        (Inr (sid, ts, createdSize),
                         ms\<lparr>mutable := idx', ms_size := ms_size ms + word_of_int createdSize\<rparr>)))"
  have g1: "metricID (snd g) = metricID ms"
    by (simp add: g_def split: option.splits prod.splits sum.splits)
  have eq: "ms_Write sz gen ms metric writeCtx =
      (case g of
           (Inl err, ms1) \<Rightarrow> ((0, Some err), ms1)
         | (Inr (sid, ts, createdSize), ms1) \<Rightarrow>
             (let ((writtenSize, err), ts', ms2) = ts_Write sz gen ts metric writeCtx ms1;
                  ms3 = ms2\<lparr>mutable := putTStore (mutable ms2) sid ts'\<rparr>;
                  ms4 = (if err = None
                         then ms3\<lparr>mutable := UpdateIndexTimeRange (mutable ms3) (PointTime writeCtx)\<rparr>
                         else ms3);
                  ms5 = ms4\<lparr>ms_size := ms_size ms4 + word_of_int writtenSize\<rparr>
              in ((writtenSize + createdSize, err), ms5)))"
    unfolding ms_Write_def g_def using False by simp
  show ?thesis
  proof (cases "fst g")
    case (Inl err)
    then have "snd (ms_Write sz gen ms metric writeCtx) = snd g"
      unfolding eq by (cases g) simp
    then show ?thesis using g1 by (simp add: GetMetricID_def)
  next
    case (Inr t)
    obtain sid ts n where t: "t = (sid, ts, n)" by (cases t)
    have "metricID (snd (ms_Write sz gen ms metric writeCtx)) =
        metricID (snd (snd (ts_Write sz gen ts metric writeCtx (snd g))))"
      unfolding eq using Inr by (cases g) (simp add: t split_beta Let_def)
    then show ?thesis using g1 by (simp add: GetMetricID_def ts_Write_def writeFields_metricID)
  qed
qed

lemma getOrCreateMStore_other:
  "familyTimes (snd (getOrCreateMStore e md now name h)) = familyTimes md"
  "lastWroteFamilyTime (snd (getOrCreateMStore e md now name h)) = lastWroteFamilyTime md"
  "length (mStoresList (snd (getOrCreateMStore e md now name h))) = length (mStoresList md)"
  by (simp_all add: getOrCreateMStore_def Let_def split: option.splits)

text \<open>
  Claim C10. When \<^verbatim>\<open>Write\<close> of the database returns an error, the set of family times
  (and so \<^verbatim>\<open>Families()\<close>) and the last written family time are what they were before
  the call, and the database holds a metric store for the name of the metric after the
  call. If it held none before the call, \<^verbatim>\<open>getOrCreateMStore\<close> has put a new metric store
  with a newly generated metric ID into the bucket, and the store of that metric ID is
  still there after the failed write; if it held one, the store of the same metric ID is
  there.
\<close>

theorem Write_error_families_unchanged:
  assumes "mStoresList md \<noteq> []"
    and "md_Write e md now metric = (Some err, md')"
  shows "familyTimes md' = familyTimes md \<and> Families md' = Families md \<and>
         lastWroteFamilyTime md' = lastWroteFamilyTime md \<and>
         (\<exists>mStore. getMStore e md' (Name metric) = Some mStore) \<and>
         (getMStore e md (Name metric) = None \<longrightarrow>
            getMStore e (snd (getOrCreateMStore e md now (Name metric) (Sum64String e (Name metric))))
                (Name metric) =
              Some (newMetricStore (sizes e) now (GenMetricID (generator md) (Name metric))) \<and>
            (\<exists>mStore. getMStore e md' (Name metric) = Some mStore \<and>
               GetMetricID mStore = GenMetricID (generator md) (Name metric))) \<and>
         (\<forall>old. getMStore e md (Name metric) = Some old \<longrightarrow>
            (\<exists>mStore. getMStore e md' (Name metric) = Some mStore \<and>
               GetMetricID mStore = GetMetricID old))"
proof -
  define hash where "hash = Sum64String e (Name metric)"
  define md1 where "md1 = snd (getOrCreateMStore e md now (Name metric) hash)"
  define mStore where "mStore = fst (getOrCreateMStore e md now (Name metric) hash)"
  define familyTime where "familyTime = CalcFamilyStartTime md (Timestamp metric)"
  define r where "r = ms_Write (sizes e) (generator md1) mStore metric
               \<lparr>w_metricID = GetMetricID mStore, w_familyTime = familyTime,
                w_slotIndex = CalcSlot md (Timestamp metric) familyTime, w_timeInterval = md_interval md1\<rparr>"
  define md2 where "md2 = updateMStore md1 hash (snd r)"
  have eq: "md_Write e md now metric =
      (snd (fst r),
       (if snd (fst r) = None then addFamilyTime md2 familyTime else md2)
         \<lparr>md_size := md_size (if snd (fst r) = None then addFamilyTime md2 familyTime else md2)
             + word_of_int (fst (fst r))\<rparr>)"
    unfolding md_Write_def Let_def split_beta
    by (simp only: hash_def md1_def mStore_def familyTime_def r_def md2_def fst_conv snd_conv)
  have e1: "snd (fst r) = Some err" using assms(2) unfolding eq by simp
  have md': "md' = md2\<lparr>md_size := md_size md2 + word_of_int (fst (fst r))\<rparr>"
    using assms(2) unfolding eq e1 by simp
  define mStore' where "mStore' = snd r"
  have "length (mStoresList md1) = length (mStoresList md)"
    by (simp add: md1_def getOrCreateMStore_other)
  then have ne: "mStoresList md1 \<noteq> []"
    using assms(1) by (metis length_0_conv)
  have st: "getMStoreByMetricHash md1 hash = Some mStore"
    unfolding md1_def mStore_def by (rule getOrCreateMStore_stored[OF assms(1)])
  have md2: "md2 = putMStore md1 hash mStore'"
    unfolding md2_def mStore'_def by (rule updateMStore_stored[OF st])
  have f: "familyTimes md' = familyTimes md" "lastWroteFamilyTime md' = lastWroteFamilyTime md"
    by (simp_all add: md' md2 md1_def getOrCreateMStore_other)
  have "getMStore e md' (Name metric) = getMStoreByMetricHash (putMStore md1 hash mStore') hash"
    by (simp add: md' md2 getMStore_def hash_def getMStoreByMetricHash_def getBucket_def
        bucketIndex_def shardingCountMask_def)
  then have s: "getMStore e md' (Name metric) = Some mStore'"
    by (simp add: getMStoreByMetricHash_putMStore[OF ne])
  have i: "GetMetricID mStore' = GetMetricID mStore"
    unfolding mStore'_def r_def by (rule ms_Write_metricID)
  have n1: "getMStore e md1 (Name metric) = Some (newMetricStore (sizes e) now (GenMetricID (generator md) (Name metric)))"
    and n2: "GetMetricID mStore' = GenMetricID (generator md) (Name metric)"
    if "getMStore e md (Name metric) = None"
  proof -
    have m: "mStore = newMetricStore (sizes e) now (GenMetricID (generator md) (Name metric))"
      unfolding mStore_def using that
      by (intro getOrCreateMStore_new) (simp add: getMStore_def hash_def)
    then show "getMStore e md1 (Name metric) =
        Some (newMetricStore (sizes e) now (GenMetricID (generator md) (Name metric)))"
      using st by (simp add: getMStore_def hash_def)
    show "GetMetricID mStore' = GenMetricID (generator md) (Name metric)"
      unfolding i m by (simp add: GetMetricID_def newMetricStore_def Let_def)
  qed
  have o: "GetMetricID mStore' = GetMetricID old" if "getMStore e md (Name metric) = Some old" for old
  proof -
    have "getMStoreByMetricHash md hash = Some old" using that by (simp add: getMStore_def hash_def)
    then have "mStore = old" unfolding mStore_def by (simp add: getOrCreateMStore_found)
    then show ?thesis using i by simp
  qed
  have 4: "\<exists>mStore. getMStore e md' (Name metric) = Some mStore" using s by simp
  have 5: "getMStore e md (Name metric) = None \<longrightarrow>
            getMStore e (snd (getOrCreateMStore e md now (Name metric) (Sum64String e (Name metric))))
                (Name metric) =
              Some (newMetricStore (sizes e) now (GenMetricID (generator md) (Name metric))) \<and>
            (\<exists>mStore. getMStore e md' (Name metric) = Some mStore \<and>
               GetMetricID mStore = GenMetricID (generator md) (Name metric))"
    using n1 n2 s unfolding md1_def hash_def by simp
  have 6: "\<forall>old. getMStore e md (Name metric) = Some old \<longrightarrow>
            (\<exists>mStore. getMStore e md' (Name metric) = Some mStore \<and>
               GetMetricID mStore = GetMetricID old)"
    using o s by simp
  have 2: "Families md' = Families md" using f(1) by (simp add: Families_def)
  from f(1) 2 f(2) 4 5 6 show ?thesis by (intro conjI)
qed

text \<open>
  Witness for C10. In \<^verbatim>\<open>dbFull\<close> the metric store of \<^verbatim>\<open>cpu\<close> has reached its limit of
  tags, so \<^verbatim>\<open>isFull\<close> makes the write of a point of the family 10800000 fail: the
  families stay \<^verbatim>\<open>[7200000]\<close> and the store stays. In \<^verbatim>\<open>dbF\<close>, which holds no metric
  store, the generator rejects the field of the first point of \<^verbatim>\<open>cpu\<close>: the write fails,
  the families stay empty and the new metric store, of metric ID 3, is in the database.
\<close>

theorem Write_error_families_unchanged_witness:
  "mStoresList dbFull \<noteq> [] \<and>
   fst (md_Write env0 dbFull 1100 latePoint) = Some ErrTooManyTags \<and>
   CalcFamilyStartTime dbFull (Timestamp latePoint) = 10800000 \<and>
   Families dbFull = [7200000] \<and>
   Families (snd (md_Write env0 dbFull 1100 latePoint)) = [7200000] \<and>
   (\<exists>mStore. getMStore env0 (snd (md_Write env0 dbFull 1100 latePoint)) ''cpu'' = Some mStore) \<and>
   mStoresList dbF \<noteq> [] \<and>
   fst (md_Write env0 dbF 1000 cpuPoint) = Some ErrWrongFieldType \<and>
   getMStore env0 dbF ''cpu'' = None \<and>
   familyTimes (snd (md_Write env0 dbF 1000 cpuPoint)) = familyTimes dbF \<and>
   (\<exists>mStore. getMStore env0 (snd (md_Write env0 dbF 1000 cpuPoint)) ''cpu'' = Some mStore \<and>
      GetMetricID mStore = 3)"
proof -
  have a: "mStoresList dbF \<noteq> []" by (simp add: dbF_def NewMemoryDatabase_def)
  have b: "fst (md_Write env0 dbF 1000 cpuPoint) = Some ErrWrongFieldType" by code_simp
  have c: "getMStore env0 dbF ''cpu'' = None" by code_simp
  have d: "md_Write env0 dbF 1000 cpuPoint = (Some ErrWrongFieldType, snd (md_Write env0 dbF 1000 cpuPoint))"
    using b by (metis prod.collapse)
  have n: "Name cpuPoint = ''cpu''" by (simp add: cpuPoint_def)
  have i: "GenMetricID (generator dbF) ''cpu'' = 3" by code_simp
  note t = Write_error_families_unchanged[OF a d, unfolded n]
  have 1: "familyTimes (snd (md_Write env0 dbF 1000 cpuPoint)) = familyTimes dbF"
    by (rule t[THEN conjunct1])
  have 2: "\<exists>mStore. getMStore env0 (snd (md_Write env0 dbF 1000 cpuPoint)) ''cpu'' = Some mStore \<and>
      GetMetricID mStore = 3"
    using t[THEN conjunct2, THEN conjunct2, THEN conjunct2, THEN conjunct2, THEN conjunct1] c
    unfolding i by blast
  have a': "mStoresList dbFull \<noteq> []" by code_simp
  have b': "fst (md_Write env0 dbFull 1100 latePoint) = Some ErrTooManyTags" by code_simp
  have c': "CalcFamilyStartTime dbFull (Timestamp latePoint) = 10800000" by code_simp
  have f': "Families dbFull = [7200000]" by code_simp
  have d': "md_Write env0 dbFull 1100 latePoint =
      (Some ErrTooManyTags, snd (md_Write env0 dbFull 1100 latePoint))"
    using b' by (metis prod.collapse)
  have n': "Name latePoint = ''cpu''" by (simp add: latePoint_def)
  note u = Write_error_families_unchanged[OF a' d', unfolded n']
  have 3: "Families (snd (md_Write env0 dbFull 1100 latePoint)) = [7200000]"
    using u[THEN conjunct2, THEN conjunct1] f' by (simp only:)
  have 4: "\<exists>mStore. getMStore env0 (snd (md_Write env0 dbFull 1100 latePoint)) ''cpu'' = Some mStore"
    by (rule u[THEN conjunct2, THEN conjunct2, THEN conjunct2, THEN conjunct1])
  show ?thesis
    by (intro conjI a' b' c' f' 3 4 a b c 1 2)
qed

text \<open>
  Claim C5 at the family of time 0. The database holds the families 0 and 7200000. The
  flush of family 0 succeeds, removes it and resets the last written family time to 0; the
  next write of a point of family 0 succeeds and does not add the family again, because
  \<^verbatim>\<open>addFamilyTime\<close> takes the reset value 0 for the family written last.
\<close>

theorem family_zero_not_readded:
  "Families dbA = [0, 7200000] \<and>
   fst (FlushFamilyTo env0 dbA flusher0 0) = None \<and>
   Families dbB = [7200000] \<and>
   lastWroteFamilyTime dbB = 0 \<and>
   CalcFamilyStartTime dbB (Timestamp zeroPoint) = 0 \<and>
   fst (md_Write env0 dbB 1600 zeroPoint) = None \<and>
   Families dbC = [7200000]"
  by code_simp

text \<open>
  Claim C2 on the run of a write, a reset of the version and a flush. The counter of the
  database equals the sum of the sizes of the metric stores after the write and after the
  reset; the flush of the family succeeds, and then the counter is 294 while the only
  metric store reports 92: the bytes of the immutable index that the flush drops are never
  subtracted from the counter.
\<close>

theorem MemSize_drifts_after_reset_and_flush:
  "md_MemSize db1 = sumOfMemSizes env0 db1 \<and>
   md_MemSize db2 = sumOfMemSizes env0 db2 \<and>
   fst (FlushFamilyTo env0 db2 flusher0 7200000) = None \<and>
   md_MemSize db3 = 294 \<and>
   sumOfMemSizes env0 db3 = 92"
  by code_simp

lemma FlushFamilyTo_families:
  "familyTimes (fst (snd (FlushFamilyTo e md fl ft))) = familyTimes md - {ft} \<and>
   lastWroteFamilyTime (fst (snd (FlushFamilyTo e md fl ft))) = 0 \<and>
   ft \<notin> set (Families (fst (snd (FlushFamilyTo e md fl ft))))"
proof -
  have "familyTimes (fst (snd (FlushFamilyTo e md fl ft))) = familyTimes md - {ft}"
    "lastWroteFamilyTime (fst (snd (FlushFamilyTo e md fl ft))) = 0"
    by (simp_all add: FlushFamilyTo_def split_beta Let_def)
  then show ?thesis
    by (cases "finite (familyTimes md - {ft})") (simp_all add: Families_def)
qed

lemma Write_adds_family:
  assumes "md_Write e md now metric = (None, md')"
    and "lastWroteFamilyTime md \<noteq> CalcFamilyStartTime md (Timestamp metric)"
  shows "CalcFamilyStartTime md (Timestamp metric) \<in> familyTimes md'"
proof -
  define hash where "hash = Sum64String e (Name metric)"
  define md1 where "md1 = snd (getOrCreateMStore e md now (Name metric) hash)"
  define mStore where "mStore = fst (getOrCreateMStore e md now (Name metric) hash)"
  define familyTime where "familyTime = CalcFamilyStartTime md (Timestamp metric)"
  define r where "r = ms_Write (sizes e) (generator md1) mStore metric
               \<lparr>w_metricID = GetMetricID mStore, w_familyTime = familyTime,
                w_slotIndex = CalcSlot md (Timestamp metric) familyTime, w_timeInterval = md_interval md1\<rparr>"
  define md2 where "md2 = updateMStore md1 hash (snd r)"
  have eq: "md_Write e md now metric =
      (snd (fst r),
       (if snd (fst r) = None then addFamilyTime md2 familyTime else md2)
         \<lparr>md_size := md_size (if snd (fst r) = None then addFamilyTime md2 familyTime else md2)
             + word_of_int (fst (fst r))\<rparr>)"
    unfolding md_Write_def Let_def split_beta
    by (simp only: hash_def md1_def mStore_def familyTime_def r_def md2_def fst_conv snd_conv)
  have e1: "snd (fst r) = None" using assms(1) unfolding eq by simp
  have md': "md' = (addFamilyTime md2 familyTime)\<lparr>md_size := md_size (addFamilyTime md2 familyTime) + word_of_int (fst (fst r))\<rparr>"
    using assms(1) unfolding eq e1 by simp
  have "lastWroteFamilyTime md2 = lastWroteFamilyTime md"
    by (simp add: md2_def md1_def getOrCreateMStore_other)
  then show ?thesis
    using assms(2) by (simp add: md' addFamilyTime_def Let_def familyTime_def)
qed

text \<open>
  What the flush of a metric store does to the two counters, for any sizes: the store
  subtracts the flushed bytes from its own counter and returns them to the database, which
  subtracts the same; the immutable slot is empty afterwards, so \<^verbatim>\<open>MemSize\<close> of the store
  no longer counts the immutable index, whose bytes were in the counter of the database.
\<close>

lemma FlushMetricsDataTo_counters:
  assumes "FlushMetricsDataTo sz ms fl flushCtx = ((flushedSize, err), ms', fl')"
  shows "ms_size ms' = ms_size ms - word_of_int flushedSize \<and>
         atomicGetImmutable ms' = None \<and>
         ms_MemSize sz ms' = emptyMStoreSize + sint (ms_size ms - word_of_int flushedSize) \<and>
         ms_MemSize sz ms = emptyMStoreSize + sint (ms_size ms) +
           (case atomicGetImmutable ms of None \<Rightarrow> 0 | Some idx \<Rightarrow> idx_MemSize sz idx)"
proof -
  have "ms_size ms' = ms_size ms - word_of_int flushedSize" "immutable ms' = Some staticNopTagIndex"
    using assms by (auto simp: FlushMetricsDataTo_def split_beta Let_def)
  then show ?thesis
    by (simp add: ms_MemSize_def atomicGetImmutable_def staticNopTagIndex_def newTagIndex_def Version_def)
qed

section \<open>The flush of a family\<close>

lemma removeSStore_removes:
  assumes "fs_ok fs"
  shows "ft \<notin> set (familyTimes_of (removeSStore fs ft))"
proof (cases "GetSStore fs ft")
  case None
  then have "removeSStore fs ft = fs"
    by (auto simp: GetSStore_def removeSStore_def Let_def split: if_splits)
  moreover have "ft \<notin> set (familyTimes_of fs)"
    using GetSStore_Some_iff[of fs ft] assms None by (simp add: fs_ok_def)
  ultimately show ?thesis by simp
next
  case (Some s)
  define i where "i = searchIdx fs ft"
  have i: "i < length (sStoreNodes fs)" "GetFamilyTime (sStoreNodes fs ! i) = ft"
    using Some by (auto simp: GetSStore_def Let_def i_def split: if_splits)
  have eq: "familyTimes_of (removeSStore fs ft) = take i (familyTimes_of fs) @ drop (Suc i) (familyTimes_of fs)"
    using i by (simp add: removeSStore_def Let_def i_def[symmetric] familyTimes_of_def take_map drop_map)
  have il: "i < length (familyTimes_of fs)" "familyTimes_of fs ! i = ft"
    using i by (simp_all add: familyTimes_of_def)
  have "distinct (take i (familyTimes_of fs) @ familyTimes_of fs ! i # drop (Suc i) (familyTimes_of fs))"
    using assms id_take_nth_drop[OF il(1)] by (simp add: fs_ok_def)
  then show ?thesis unfolding eq using il(2) by auto
qed

lemma removeSStore_ok: "fs_ok fs \<Longrightarrow> fs_ok (removeSStore fs ft)"
  by (simp add: fs_ok_def removeSStore_sorted removeSStore_distinct)

lemma FlushFieldTo_cases:
  "fst (snd (FlushFieldTo sz fs fl ft)) = fs \<and> GetSStore fs ft = None \<or>
   fst (snd (FlushFieldTo sz fs fl ft)) = removeSStore fs ft"
  by (simp add: FlushFieldTo_def Let_def split_beta split: option.splits sum.splits prod.splits)

lemma FlushFieldTo_flushed:
  assumes "fs_ok fs"
  shows "fs_ok (fst (snd (FlushFieldTo sz fs fl ft))) \<and>
         ft \<notin> set (familyTimes_of (fst (snd (FlushFieldTo sz fs fl ft))))"
  using FlushFieldTo_cases[of sz fs fl ft]
proof
  assume a: "fst (snd (FlushFieldTo sz fs fl ft)) = fs \<and> GetSStore fs ft = None"
  then have "ft \<notin> set (familyTimes_of fs)"
    using GetSStore_Some_iff[of fs ft] assms by (simp add: fs_ok_def)
  with a assms show ?thesis by simp
next
  assume "fst (snd (FlushFieldTo sz fs fl ft)) = removeSStore fs ft"
  then show ?thesis using assms by (simp add: removeSStore_ok removeSStore_removes)
qed

lemma flushFStores_flushed:
  "\<forall>fs \<in> set xs. fs_ok fs \<Longrightarrow>
   \<forall>fs \<in> set (fst (snd (flushFStores sz xs fl ft))). fs_ok fs \<and> ft \<notin> set (familyTimes_of fs)"
proof (induction xs arbitrary: fl)
  case Nil
  then show ?case by simp
next
  case (Cons x xs)
  define fl1 where "fl1 = snd (snd (FlushFieldTo sz x fl ft))"
  have eq: "fst (snd (flushFStores sz (x # xs) fl ft)) =
      fst (snd (FlushFieldTo sz x fl ft)) # fst (snd (flushFStores sz xs fl1 ft))"
    by (simp add: split_beta Let_def fl1_def)
  show ?case unfolding eq
    using FlushFieldTo_flushed[of x sz fl ft] Cons.IH[of fl1] Cons.prems by simp
qed

lemma FlushSeriesTo_flushed:
  "\<forall>fs \<in> set (fStoreNodes ts). fs_ok fs \<Longrightarrow>
   \<forall>fs \<in> set (fStoreNodes (fst (snd (FlushSeriesTo sz ts fl flushCtx sid)))).
      fs_ok fs \<and> fl_familyTime flushCtx \<notin> set (familyTimes_of fs)"
  using flushFStores_flushed[of "fStoreNodes ts" sz fl "fl_familyTime flushCtx"]
  by (simp add: FlushSeriesTo_def split_beta Let_def)

lemma flushTStores_flushed:
  "\<forall>(sid, ts) \<in> set xs. \<forall>fs \<in> set (fStoreNodes ts). fs_ok fs \<Longrightarrow>
   \<forall>(sid, ts) \<in> set (fst (snd (flushTStores sz xs fl flushCtx))).
      \<forall>fs \<in> set (fStoreNodes ts). fs_ok fs \<and> fl_familyTime flushCtx \<notin> set (familyTimes_of fs)"
proof (induction xs arbitrary: fl)
  case Nil
  then show ?case by simp
next
  case (Cons x xs)
  obtain sid ts where x: "x = (sid, ts)" by (cases x)
  define fl1 where "fl1 = snd (snd (FlushSeriesTo sz ts fl flushCtx sid))"
  have eq: "fst (snd (flushTStores sz (x # xs) fl flushCtx)) =
      (sid, fst (snd (FlushSeriesTo sz ts fl flushCtx sid))) # fst (snd (flushTStores sz xs fl1 flushCtx))"
    by (simp add: x split_beta Let_def fl1_def)
  show ?case unfolding eq
    using FlushSeriesTo_flushed[of ts sz fl flushCtx sid] Cons.IH[of fl1] Cons.prems
    by (simp add: x)
qed

lemma idx_fieldStores_iff:
  "(\<forall>fs \<in> set (idx_fieldStores idx). P fs) =
   (\<forall>(sid, ts) \<in> set (seriesID2TStore idx). \<forall>fs \<in> set (fStoreNodes ts). P fs)"
  by (auto simp: idx_fieldStores_def)

lemma FlushVersionDataTo_flushed:
  assumes "\<forall>fs \<in> set (idx_fieldStores idx). fs_ok fs"
  shows "\<forall>fs \<in> set (idx_fieldStores (fst (snd (FlushVersionDataTo sz idx fl flushCtx)))).
           fs_ok fs \<and> fl_familyTime flushCtx \<notin> set (familyTimes_of fs)"
proof -
  have "seriesID2TStore (fst (snd (FlushVersionDataTo sz idx fl flushCtx))) =
      fst (snd (flushTStores sz (seriesID2TStore idx) fl flushCtx))"
    by (simp add: FlushVersionDataTo_def split_beta Let_def)
  then show ?thesis
    using flushTStores_flushed[of "seriesID2TStore idx" sz fl flushCtx] assms
    by (simp add: idx_fieldStores_iff)
qed

lemma FlushMetricsDataTo_flushed:
  assumes "\<forall>fs \<in> set (ms_fieldStores ms). fs_ok fs"
  shows "\<forall>fs \<in> set (ms_fieldStores (fst (snd (FlushMetricsDataTo sz ms fl flushCtx)))).
           fs_ok fs \<and> fl_familyTime flushCtx \<notin> set (familyTimes_of fs)"
proof -
  define fl1 where "fl1 = emit (EvFlushFieldMetas (fieldsMetas ms)) fl"
  have "ms_fieldStores (fst (snd (FlushMetricsDataTo sz ms fl flushCtx))) =
      idx_fieldStores (fst (snd (FlushVersionDataTo sz (mutable ms) fl1 flushCtx)))"
    by (simp add: FlushMetricsDataTo_def split_beta Let_def fl1_def ms_fieldStores_def
        staticNopTagIndex_def newTagIndex_def idx_fieldStores_def)
  then show ?thesis
    using FlushVersionDataTo_flushed[of "mutable ms" sz fl1 flushCtx] assms
    by (simp add: ms_fieldStores_def)
qed

lemma FlushMetricsDataTo_ok:
  "ms_ok ms \<Longrightarrow> fl_familyTime flushCtx = ft \<Longrightarrow>
     ms_ok (fst (snd (FlushMetricsDataTo sz ms fl flushCtx))) \<and>
     ms_flushed ft (fst (snd (FlushMetricsDataTo sz ms fl flushCtx)))"
  using FlushMetricsDataTo_flushed[of ms sz fl flushCtx]
  by (auto simp: ms_ok_def ms_flushed_def)

lemma flushMStores_flushed:
  assumes "\<forall>(h, ms) \<in> set xs. ms_ok ms"
  shows "\<forall>(h, ms) \<in> set (fst (snd (flushMStores sz iv ft xs fl c))).
           ms_ok ms \<and> (fst (flushMStores sz iv ft xs fl c) = None \<longrightarrow> ms_flushed ft ms)"
  using assms
proof (induction xs arbitrary: fl c)
  case Nil
  then show ?case by simp
next
  case (Cons x xs)
  obtain h ms where x: "x = (h, ms)" by (cases x)
  define ctx where "ctx = \<lparr>fl_metricID = GetMetricID ms, fl_familyTime = ft, fl_timeInterval = iv\<rparr>"
  define r where "r = FlushMetricsDataTo sz ms fl ctx"
  define fl1 where "fl1 = snd (snd r)"
  define c1 where "c1 = c - word_of_int (fst (fst r))"
  have ok: "ms_ok (fst (snd r))" "ms_flushed ft (fst (snd r))"
    using FlushMetricsDataTo_ok[of ms ctx ft sz fl] Cons.prems by (simp_all add: x r_def ctx_def)
  have rest: "\<forall>(h, ms) \<in> set xs. ms_ok ms" using Cons.prems by simp
  show ?case
  proof (cases "snd (fst r)")
    case (Some er)
    have eq: "flushMStores sz iv ft (x # xs) fl c = (Some er, (h, fst (snd r)) # xs, fl1, c1)"
      using Some by (simp add: x split_beta Let_def r_def ctx_def fl1_def c1_def)
    show ?thesis unfolding eq using ok rest by auto
  next
    case None
    define r2 where "r2 = flushMStores sz iv ft xs fl1 c1"
    have eq: "flushMStores sz iv ft (x # xs) fl c =
        (fst r2, (h, fst (snd r)) # fst (snd r2), fst (snd (snd r2)), snd (snd (snd r2)))"
      using None by (simp add: x split_beta Let_def r_def ctx_def fl1_def c1_def r2_def)
    show ?thesis unfolding eq using ok Cons.IH[OF rest, of fl1 c1] by (auto simp: r2_def)
  qed
qed

lemma flushBuckets_flushed:
  assumes "\<forall>bkt \<in> set bs. bkt_ok bkt"
  shows "\<forall>bkt \<in> set (fst (snd (flushBuckets sz iv ft bs fl c))). \<forall>(h, ms) \<in> set (hash2MStore bkt).
           ms_ok ms \<and> (fst (flushBuckets sz iv ft bs fl c) = None \<longrightarrow> ms_flushed ft ms)"
  using assms
proof (induction bs arbitrary: fl c)
  case Nil
  then show ?case by simp
next
  case (Cons b bs)
  define r where "r = flushMStores sz iv ft (hash2MStore b) fl c"
  define b' where "b' = b\<lparr>hash2MStore := fst (snd r)\<rparr>"
  define fl1 where "fl1 = fst (snd (snd r))"
  define c1 where "c1 = snd (snd (snd r))"
  have ok: "\<forall>(h, ms) \<in> set (hash2MStore b'). ms_ok ms \<and> (fst r = None \<longrightarrow> ms_flushed ft ms)"
    using flushMStores_flushed[of "hash2MStore b" sz iv ft fl c] Cons.prems
    by (simp add: b'_def r_def bkt_ok_def)
  have rest: "\<forall>bkt \<in> set bs. bkt_ok bkt" using Cons.prems by simp
  show ?case
  proof (cases "fst r")
    case (Some er)
    have eq: "flushBuckets sz iv ft (b # bs) fl c = (Some er, b' # bs, fl1, c1)"
      using Some by (simp add: split_beta Let_def r_def b'_def fl1_def c1_def)
    show ?thesis unfolding eq using ok rest by (auto simp: bkt_ok_def)
  next
    case None
    define r2 where "r2 = flushBuckets sz iv ft bs fl1 c1"
    have eq: "flushBuckets sz iv ft (b # bs) fl c =
        (fst r2, b' # fst (snd r2), fst (snd (snd r2)), snd (snd (snd r2)))"
      using None by (simp add: split_beta Let_def r_def b'_def fl1_def c1_def r2_def)
    show ?thesis unfolding eq using ok None Cons.IH[OF rest, of fl1 c1] by (auto simp: r2_def)
  qed
qed

lemma md_fieldStores_iff:
  "(\<forall>fs \<in> set (md_fieldStores md). P fs) =
   (\<forall>bkt \<in> set (mStoresList md). \<forall>(h, ms) \<in> set (hash2MStore bkt). \<forall>fs \<in> set (ms_fieldStores ms). P fs)"
  by (fastforce simp: md_fieldStores_def allMStores_def)

lemma md_ok_iff: "md_ok md = (mStoresList md \<noteq> [] \<and> (\<forall>bkt \<in> set (mStoresList md). bkt_ok bkt))"
  by (simp add: md_ok_def md_fieldStores_iff bkt_ok_def ms_ok_def)

lemma flushBuckets_length:
  "length (fst (snd (flushBuckets sz iv ft bs fl c))) = length bs"
proof (induction bs arbitrary: fl c)
  case Nil
  then show ?case by simp
next
  case (Cons b bs)
  show ?case
    by (cases "fst (flushMStores sz iv ft (hash2MStore b) fl c)")
       (simp_all add: split_beta Let_def Cons.IH)
qed

lemma FlushFamilyTo_flushed:
  assumes "md_ok md"
  shows "md_ok (fst (snd (FlushFamilyTo e md fl ft))) \<and>
         (fst (FlushFamilyTo e md fl ft) = None \<longrightarrow>
            (\<forall>fs \<in> set (md_fieldStores (fst (snd (FlushFamilyTo e md fl ft)))).
               ft \<notin> set (familyTimes_of fs)))"
proof -
  define r where "r = flushBuckets (sizes e) (md_interval md) ft (mStoresList md) fl (md_size md)"
  have l: "mStoresList (fst (snd (FlushFamilyTo e md fl ft))) = fst (snd r)"
    and er: "fst (FlushFamilyTo e md fl ft) = fst r"
    by (simp_all add: FlushFamilyTo_def split_beta Let_def r_def)
  have b: "\<forall>bkt \<in> set (mStoresList md). bkt_ok bkt" using assms by (simp add: md_ok_iff)
  have f: "\<forall>bkt \<in> set (fst (snd r)). \<forall>(h, ms) \<in> set (hash2MStore bkt).
           ms_ok ms \<and> (fst r = None \<longrightarrow> ms_flushed ft ms)"
    using flushBuckets_flushed[OF b] by (simp add: r_def)
  have ne: "fst (snd r) \<noteq> []"
    using flushBuckets_length[of "sizes e" "md_interval md" ft "mStoresList md" fl "md_size md"] assms
    by (auto simp: r_def md_ok_def)
  have 1: "md_ok (fst (snd (FlushFamilyTo e md fl ft)))"
    unfolding md_ok_iff l using f ne by (auto simp: bkt_ok_def)
  have 2: "\<forall>fs \<in> set (md_fieldStores (fst (snd (FlushFamilyTo e md fl ft)))). ft \<notin> set (familyTimes_of fs)"
    if "fst (FlushFamilyTo e md fl ft) = None"
    unfolding md_fieldStores_iff l using f that er by (fastforce simp: ms_flushed_def)
  from 1 2 show ?thesis by blast
qed

section \<open>The segment lists stay ordered\<close>

lemma fs_Write_ok: "fs_ok fs \<Longrightarrow> fs_ok (snd (fs_Write sz fs f writeCtx))"
  by (simp add: fs_ok_def fs_Write_sorted fs_Write_distinct)

lemma newFieldStore_ok: "fs_ok (newFieldStore fid)"
  by (simp add: fs_ok_def newFieldStore_def familyTimes_of_def)

lemma writeFStore_ok:
  "\<forall>fs \<in> set xs. fs_ok fs \<Longrightarrow> \<forall>fs \<in> set (snd (writeFStore sz xs fid f writeCtx)). fs_ok fs"
  by (induction xs) (auto simp: split_beta Let_def fs_Write_ok)

lemma GetFieldIDOrGenerate_indexes:
  "mutable (snd (GetFieldIDOrGenerate ms name ty gen)) = mutable ms \<and>
   immutable (snd (GetFieldIDOrGenerate ms name ty gen)) = immutable ms \<and>
   maxTagsLimit (snd (GetFieldIDOrGenerate ms name ty gen)) = maxTagsLimit ms \<and>
   metricID (snd (GetFieldIDOrGenerate ms name ty gen)) = metricID ms \<and>
   ms_size (snd (GetFieldIDOrGenerate ms name ty gen)) = ms_size ms"
  by (simp add: GetFieldIDOrGenerate_def Let_def split: option.splits sum.splits)

lemma writeFields_ok:
  "\<forall>fs \<in> set (fStoreNodes ts). fs_ok fs \<Longrightarrow>
   \<forall>fs \<in> set (fStoreNodes (fst (snd (writeFields sz gen writeCtx flds ts getter acc)))). fs_ok fs"
proof (induction flds arbitrary: ts getter acc)
  case Nil
  then show ?case by simp
next
  case (Cons f flds)
  define r where "r = GetFieldIDOrGenerate getter (f_Name f) (getFieldType f) gen"
  show ?case
  proof (cases "fst r")
    case (Inl err)
    then have "writeFields sz gen writeCtx (f # flds) ts getter acc = ((acc, Some err), ts, snd r)"
      by (simp add: r_def split_beta split: prod.splits)
    then show ?thesis using Cons.prems by simp
  next
    case (Inr fid)
    define c where "c = (case GetFStore ts fid of
                    Some _ \<Rightarrow> (0, ts)
                  | None \<Rightarrow> (fs_MemSize sz (newFieldStore fid), insertFStore ts (newFieldStore fid)))"
    define w where "w = writeFStore sz (fStoreNodes (snd c)) fid f writeCtx"
    define ts2 where "ts2 = (snd c)\<lparr>fStoreNodes := snd w\<rparr>"
    have eq: "writeFields sz gen writeCtx (f # flds) ts getter acc =
        writeFields sz gen writeCtx flds ts2 (snd r) (acc + fst c + fst w)"
      using Inr by (simp add: r_def split_beta Let_def c_def w_def ts2_def split: prod.splits)
    have "\<forall>fs \<in> set (fStoreNodes (snd c)). fs_ok fs"
      using Cons.prems
      by (auto simp: c_def insertFStore_def set_insort_key newFieldStore_ok split: option.splits)
    then have "\<forall>fs \<in> set (fStoreNodes ts2). fs_ok fs"
      using writeFStore_ok[of "fStoreNodes (snd c)" sz fid f writeCtx] by (simp add: ts2_def w_def)
    then show ?thesis unfolding eq by (rule Cons.IH)
  qed
qed

lemma writeFields_indexes:
  "mutable (snd (snd (writeFields sz gen writeCtx flds ts getter acc))) = mutable getter \<and>
   immutable (snd (snd (writeFields sz gen writeCtx flds ts getter acc))) = immutable getter"
proof (induction flds arbitrary: ts getter acc)
  case Nil
  then show ?case by simp
next
  case (Cons f flds)
  define r where "r = GetFieldIDOrGenerate getter (f_Name f) (getFieldType f) gen"
  have g: "mutable (snd r) = mutable getter" "immutable (snd r) = immutable getter"
    by (simp_all add: r_def GetFieldIDOrGenerate_indexes)
  show ?case
  proof (cases "fst r")
    case (Inl err)
    then have "writeFields sz gen writeCtx (f # flds) ts getter acc = ((acc, Some err), ts, snd r)"
      by (simp add: r_def split_beta split: prod.splits)
    then show ?thesis using g by simp
  next
    case (Inr fid)
    define c where "c = (case GetFStore ts fid of
                    Some _ \<Rightarrow> (0, ts)
                  | None \<Rightarrow> (fs_MemSize sz (newFieldStore fid), insertFStore ts (newFieldStore fid)))"
    define w where "w = writeFStore sz (fStoreNodes (snd c)) fid f writeCtx"
    define ts2 where "ts2 = (snd c)\<lparr>fStoreNodes := snd w\<rparr>"
    have eq: "writeFields sz gen writeCtx (f # flds) ts getter acc =
        writeFields sz gen writeCtx flds ts2 (snd r) (acc + fst c + fst w)"
      using Inr by (simp add: r_def split_beta Let_def c_def w_def ts2_def split: prod.splits)
    show ?thesis unfolding eq using Cons.IH[of ts2 "snd r"] g by simp
  qed
qed

lemma idx_fieldStores_putTStore:
  "set (idx_fieldStores (putTStore idx sid ts)) \<subseteq> set (idx_fieldStores idx) \<union> set (fStoreNodes ts)"
  by (fastforce simp: idx_fieldStores_def putTStore_def split: if_splits)

lemma GetTStore_Some_fieldStores:
  "GetTStore idx tags = Some (sid, ts) \<Longrightarrow> set (fStoreNodes ts) \<subseteq> set (idx_fieldStores idx)"
  by (fastforce simp: GetTStore_def GetTStoreBySeriesID_def idx_fieldStores_def
      split: option.splits dest: map_of_SomeD)

lemma GetOrCreateTStore_fieldStores:
  "set (idx_fieldStores (snd (GetOrCreateTStore sz idx tags writeCtx))) = set (idx_fieldStores idx) \<and>
   (\<forall>sid ts n. fst (GetOrCreateTStore sz idx tags writeCtx) = Inr (sid, ts, n) \<longrightarrow>
      set (fStoreNodes ts) \<subseteq> set (idx_fieldStores idx))"
proof (cases "GetTStore idx tags")
  case None
  then show ?thesis
    by (auto simp: GetOrCreateTStore_def Let_def idx_fieldStores_def newTimeSeriesStore_def)
next
  case (Some p)
  obtain sid ts where p: "p = (sid, ts)" by (cases p)
  show ?thesis
    using Some GetTStore_Some_fieldStores[of idx tags sid ts]
    by (simp add: GetOrCreateTStore_def p)
qed

lemma idx_fieldStores_UpdateIndexTimeRange [simp]:
  "idx_fieldStores (UpdateIndexTimeRange idx pt) = idx_fieldStores idx"
  by (simp add: idx_fieldStores_def UpdateIndexTimeRange_def Let_def)

lemma ms_Write_ok:
  assumes "ms_ok ms"
  shows "ms_ok (snd (ms_Write sz gen ms metric writeCtx))"
proof (cases "isFull ms")
  case True
  then show ?thesis using assms by (simp add: ms_Write_def)
next
  case False
  define c where "c = GetOrCreateTStore sz (mutable ms) (Tags metric) writeCtx"
  define g where "g = (case GetTStore (mutable ms) (Tags metric) of
                 Some (sid, ts) \<Rightarrow> (Inr (sid, ts, 0), ms)
               | None \<Rightarrow>
                   (case c of
                      (Inl err, idx') \<Rightarrow> (Inl err, ms\<lparr>mutable := idx'\<rparr>)
                    | (Inr (sid, ts, createdSize), idx') \<Rightarrow>
                        (Inr (sid, ts, createdSize),
                         ms\<lparr>mutable := idx', ms_size := ms_size ms + word_of_int createdSize\<rparr>)))"
  have cf: "set (idx_fieldStores (snd c)) = set (idx_fieldStores (mutable ms))"
    "\<And>sid ts n. fst c = Inr (sid, ts, n) \<Longrightarrow> set (fStoreNodes ts) \<subseteq> set (idx_fieldStores (mutable ms))"
    using GetOrCreateTStore_fieldStores[of sz "mutable ms" "Tags metric" writeCtx]
    by (simp_all add: c_def)
  have g1: "set (ms_fieldStores (snd g)) = set (ms_fieldStores ms)"
  proof (cases "GetTStore (mutable ms) (Tags metric)")
    case None
    then show ?thesis using cf(1)
      by (cases c; cases "fst c") (auto simp: g_def ms_fieldStores_def split: prod.splits sum.splits)
  next
    case (Some p)
    then show ?thesis by (cases p) (simp add: g_def)
  qed
  have g2: "set (fStoreNodes ts) \<subseteq> set (ms_fieldStores ms)" if "fst g = Inr (sid, ts, n)" for sid ts n
  proof (cases "GetTStore (mutable ms) (Tags metric)")
    case None
    then have "fst c = Inr (sid, ts, n)"
      using that by (cases c; cases "fst c") (auto simp: g_def split: prod.splits sum.splits)
    then show ?thesis using cf(2) by (auto simp: ms_fieldStores_def)
  next
    case (Some p)
    obtain sid' ts' where p: "p = (sid', ts')" by (cases p)
    have "ts' = ts" using that Some by (simp add: g_def p)
    then show ?thesis
      using GetTStore_Some_fieldStores[of "mutable ms" "Tags metric" sid' ts'] Some
      by (auto simp: p ms_fieldStores_def)
  qed
  have eq: "ms_Write sz gen ms metric writeCtx =
      (case g of
           (Inl err, ms1) \<Rightarrow> ((0, Some err), ms1)
         | (Inr (sid, ts, createdSize), ms1) \<Rightarrow>
             (let ((writtenSize, err), ts', ms2) = ts_Write sz gen ts metric writeCtx ms1;
                  ms3 = ms2\<lparr>mutable := putTStore (mutable ms2) sid ts'\<rparr>;
                  ms4 = (if err = None
                         then ms3\<lparr>mutable := UpdateIndexTimeRange (mutable ms3) (PointTime writeCtx)\<rparr>
                         else ms3);
                  ms5 = ms4\<lparr>ms_size := ms_size ms4 + word_of_int writtenSize\<rparr>
              in ((writtenSize + createdSize, err), ms5)))"
    unfolding ms_Write_def g_def c_def using False by simp
  show ?thesis
  proof (cases "fst g")
    case (Inl err)
    then have "snd (ms_Write sz gen ms metric writeCtx) = snd g"
      unfolding eq by (cases g) simp
    then show ?thesis using assms g1 by (simp add: ms_ok_def)
  next
    case (Inr t)
    obtain sid ts n where t: "t = (sid, ts, n)" by (cases t)
    define w where "w = ts_Write sz gen ts metric writeCtx (snd g)"
    define ts' where "ts' = fst (snd w)"
    define ms2 where "ms2 = snd (snd w)"
    have m2: "mutable ms2 = mutable (snd g)" "immutable ms2 = immutable (snd g)"
      using writeFields_indexes[of sz gen writeCtx "Fields metric" ts "snd g" 0]
      by (simp_all add: ms2_def w_def ts_Write_def)
    have tsok: "\<forall>fs \<in> set (fStoreNodes ts). fs_ok fs"
      using g2[of sid ts n] Inr assms by (auto simp: t ms_ok_def)
    have ts'ok: "\<forall>fs \<in> set (fStoreNodes ts'). fs_ok fs"
      using writeFields_ok[OF tsok, of sz gen writeCtx "Fields metric" "snd g" 0]
      by (simp add: ts'_def w_def ts_Write_def)
    have res: "set (ms_fieldStores (snd (ms_Write sz gen ms metric writeCtx))) =
        set (idx_fieldStores (putTStore (mutable ms2) sid ts')) \<union>
        (case immutable ms2 of None \<Rightarrow> {} | Some idx \<Rightarrow> set (idx_fieldStores idx))"
      unfolding eq using Inr
      by (cases g) (simp add: t split_beta Let_def w_def ts'_def ms2_def ms_fieldStores_def
          split: option.splits)
    have "set (idx_fieldStores (putTStore (mutable ms2) sid ts')) \<subseteq>
        set (idx_fieldStores (mutable (snd g))) \<union> set (fStoreNodes ts')"
      using idx_fieldStores_putTStore[of "mutable ms2" sid ts'] by (simp add: m2)
    moreover have "set (idx_fieldStores (mutable (snd g))) \<union>
        (case immutable ms2 of None \<Rightarrow> {} | Some idx \<Rightarrow> set (idx_fieldStores idx)) = set (ms_fieldStores ms)"
    proof -
      have "set (ms_fieldStores (snd g)) = set (idx_fieldStores (mutable (snd g))) \<union>
          (case immutable (snd g) of None \<Rightarrow> {} | Some idx \<Rightarrow> set (idx_fieldStores idx))"
        by (simp add: ms_fieldStores_def split: option.splits)
      then show ?thesis unfolding m2 g1 by simp
    qed
    ultimately have "set (ms_fieldStores (snd (ms_Write sz gen ms metric writeCtx))) \<subseteq>
        set (ms_fieldStores ms) \<union> set (fStoreNodes ts')"
      unfolding res by blast
    then show ?thesis using assms ts'ok unfolding ms_ok_def by blast
  qed
qed

lemma set_mapPut: "set (mapPut xs k v) \<subseteq> insert (k, v) (set xs)"
  by (induction xs) (auto split: if_splits)

lemma putMStore_ok:
  assumes "md_ok md" "ms_ok ms"
  shows "md_ok (putMStore md h ms)"
proof -
  define i where "i = bucketIndex md h"
  define bkt' where "bkt' = (mStoresList md ! i)\<lparr>hash2MStore := mapPut (hash2MStore (mStoresList md ! i)) h ms\<rparr>"
  have l: "mStoresList (putMStore md h ms) = (mStoresList md)[i := bkt']"
    by (simp add: putMStore_def Let_def i_def bkt'_def)
  have ne: "mStoresList md \<noteq> []" and b: "\<forall>bkt \<in> set (mStoresList md). bkt_ok bkt"
    using assms(1) by (simp_all add: md_ok_iff)
  have i: "i < length (mStoresList md)" using ne by (simp add: i_def bucketIndex_lt)
  then have "bkt_ok (mStoresList md ! i)" using b by simp
  then have "bkt_ok bkt'"
    using assms(2) set_mapPut[of "hash2MStore (mStoresList md ! i)" h ms]
    by (auto simp: bkt_ok_def bkt'_def)
  then have "\<forall>bkt \<in> set ((mStoresList md)[i := bkt']). bkt_ok bkt"
    using b set_update_subset_insert[of "mStoresList md" i bkt'] by auto
  then show ?thesis using ne by (simp add: md_ok_iff l)
qed

lemma getMStoreByMetricHash_ok:
  assumes "md_ok md" "getMStoreByMetricHash md h = Some ms"
  shows "ms_ok ms"
proof -
  have ne: "mStoresList md \<noteq> []" and b: "\<forall>bkt \<in> set (mStoresList md). bkt_ok bkt"
    using assms(1) by (simp_all add: md_ok_iff)
  have "bucketIndex md h < length (mStoresList md)" using ne by (rule bucketIndex_lt)
  then have "bkt_ok (getBucket md h)" using b by (simp add: getBucket_def)
  moreover have "(h, ms) \<in> set (hash2MStore (getBucket md h))"
    using assms(2) by (auto simp: getMStoreByMetricHash_def dest: map_of_SomeD)
  ultimately show ?thesis by (auto simp: bkt_ok_def)
qed

lemma newMetricStore_ok: "ms_ok (newMetricStore sz now mid)"
  by (simp add: ms_ok_def newMetricStore_def ms_fieldStores_def idx_fieldStores_def newTagIndex_def Let_def)

lemma md_ok_cong:
  "mStoresList md' = mStoresList md \<Longrightarrow> md_ok md' = md_ok md"
  by (simp add: md_ok_iff)

lemma getOrCreateMStore_ok:
  assumes "md_ok md"
  shows "ms_ok (fst (getOrCreateMStore e md now name h)) \<and> md_ok (snd (getOrCreateMStore e md now name h))"
proof (cases "getMStoreByMetricHash md h")
  case (Some ms)
  then show ?thesis
    using assms getMStoreByMetricHash_ok[OF assms Some] by (simp add: getOrCreateMStore_def)
next
  case None
  define ms where "ms = newMetricStore (sizes e) now (GenMetricID (generator md) name)"
  define md1 where "md1 = md\<lparr>md_size := md_size md + word_of_int (ms_MemSize (sizes e) ms)\<rparr>"
  have n: "map_of (hash2MStore (getBucket md h)) h = None"
    using None by (simp add: getMStoreByMetricHash_def)
  have eq: "getOrCreateMStore e md now name h =
      (ms, (putMStore md1 h ms)\<lparr>metricID2Hash := mapPut (metricID2Hash (putMStore md1 h ms)) (metricID ms) h\<rparr>)"
    using None n by (simp add: getOrCreateMStore_def Let_def ms_def md1_def newMetricStore_def)
  have "mStoresList md1 = mStoresList md" by (simp add: md1_def)
  then have "md_ok md1" using assms md_ok_cong by blast
  then have p: "md_ok (putMStore md1 h ms)"
    by (rule putMStore_ok) (simp add: ms_def newMetricStore_ok)
  have "mStoresList (snd (getOrCreateMStore e md now name h)) = mStoresList (putMStore md1 h ms)"
    unfolding eq by simp
  then have "md_ok (snd (getOrCreateMStore e md now name h))"
    using p md_ok_cong by blast
  then show ?thesis unfolding eq by (simp add: ms_def newMetricStore_ok)
qed

lemma addFamilyTime_mStoresList [simp]:
  "mStoresList (addFamilyTime md ft) = mStoresList md"
  by (simp add: addFamilyTime_def Let_def)

lemma md_Write_ok:
  assumes "md_ok md"
  shows "md_ok (snd (md_Write e md now metric))"
proof -
  define hash where "hash = Sum64String e (Name metric)"
  define g where "g = getOrCreateMStore e md now (Name metric) hash"
  define familyTime where "familyTime = CalcFamilyStartTime md (Timestamp metric)"
  define r where "r = ms_Write (sizes e) (generator (snd g)) (fst g) metric
               \<lparr>w_metricID = GetMetricID (fst g), w_familyTime = familyTime,
                w_slotIndex = CalcSlot md (Timestamp metric) familyTime, w_timeInterval = md_interval (snd g)\<rparr>"
  define md2 where "md2 = updateMStore (snd g) hash (snd r)"
  have l: "mStoresList (snd (md_Write e md now metric)) = mStoresList md2"
    unfolding md_Write_def Let_def split_beta
    by (simp add: hash_def g_def familyTime_def r_def md2_def)
  have "ms_ok (fst g)" "md_ok (snd g)"
    using getOrCreateMStore_ok[OF assms, of e now "Name metric" hash] by (simp_all add: g_def)
  then have "md_ok (putMStore (snd g) hash (snd r))"
    unfolding r_def by (intro putMStore_ok ms_Write_ok)
  then have "md_ok md2"
    using \<open>md_ok (snd g)\<close> by (simp add: md2_def updateMStore_def split: option.splits)
  then show ?thesis using md_ok_cong[OF l] by simp
qed

lemma ResetVersion_ok: "ms_ok ms \<Longrightarrow> ms_ok (snd (ResetVersion sz now ms))"
  by (auto simp: ResetVersion_def Let_def ms_ok_def ms_fieldStores_def idx_fieldStores_def
      newTagIndex_def split: option.splits)

lemma ResetMetricStore_ok:
  assumes "md_ok md"
  shows "md_ok (snd (ResetMetricStore e md now name))"
proof (cases "getMStore e md name")
  case None
  then show ?thesis using assms by (simp add: ResetMetricStore_def)
next
  case (Some ms)
  have "ms_ok ms" using getMStoreByMetricHash_ok[OF assms] Some by (simp add: getMStore_def)
  then have "md_ok (putMStore md (Sum64String e name) (snd (ResetVersion (sizes e) now ms)))"
    using assms by (intro putMStore_ok ResetVersion_ok)
  moreover have "mStoresList (snd (ResetMetricStore e md now name)) =
      mStoresList (putMStore md (Sum64String e name) (snd (ResetVersion (sizes e) now ms)))"
    using Some by (simp add: ResetMetricStore_def split_beta Let_def)
  ultimately show ?thesis using md_ok_cong by blast
qed

lemma setLimitations_ok: "md_ok md \<Longrightarrow> md_ok (setLimitations e md limitations)"
proof (induction limitations arbitrary: md)
  case Nil
  then show ?case by simp
next
  case (Cons x xs)
  obtain name limit where x: "x = (name, limit)" by (cases x)
  show ?case
  proof (cases "getMStore e md name")
    case None
    then show ?thesis using Cons by (simp add: x)
  next
    case (Some ms)
    have "ms_ok ms" using getMStoreByMetricHash_ok[OF Cons.prems] Some by (simp add: getMStore_def)
    then have "ms_ok (SetMaxTagsLimit ms limit)"
      by (simp add: ms_ok_def SetMaxTagsLimit_def ms_fieldStores_def)
    then have "md_ok (putMStore md (Sum64String e name) (SetMaxTagsLimit ms limit))"
      using Cons.prems by (intro putMStore_ok)
    then show ?thesis using Some Cons.IH by (simp add: x)
  qed
qed

lemma md_step_ok: "md_ok md \<Longrightarrow> md_ok (md_step e md call)"
  by (cases call) (simp_all add: md_Write_ok ResetMetricStore_ok FlushFamilyTo_flushed setLimitations_ok)

lemma md_run_ok: "md_ok md \<Longrightarrow> md_ok (md_run e md calls)"
  by (induction calls arbitrary: md) (simp_all add: md_step_ok)

lemma NewMemoryDatabase_ok: "0 < n \<Longrightarrow> md_ok (NewMemoryDatabase n tw iv gen)"
  by (auto simp: md_ok_def NewMemoryDatabase_def md_fieldStores_def allMStores_def newMStoreBucket_def)

text \<open>
  Claim C3. Take any database reached from a new one by writes, resets of a metric store,
  flushes and changes of the tag limits. When \<^verbatim>\<open>FlushFamilyTo\<close> of a family time returns
  no error, no field store of the database holds a segment of that family time any more:
  the family time is not in its segment list and \<^verbatim>\<open>GetSStore\<close> does not find it.
\<close>

theorem FlushFamilyTo_leaves_no_segment:
  assumes "0 < shardingCount"
    and "md = md_run e (NewMemoryDatabase shardingCount tw iv gen) calls"
    and "FlushFamilyTo e md fl ft = (None, md', fl')"
  shows "\<forall>fs \<in> set (md_fieldStores md'). ft \<notin> set (familyTimes_of fs) \<and> GetSStore fs ft = None"
proof -
  have ok: "md_ok md"
    unfolding assms(2) by (intro md_run_ok NewMemoryDatabase_ok assms(1))
  have f: "md_ok md' \<and> (\<forall>fs \<in> set (md_fieldStores md'). ft \<notin> set (familyTimes_of fs))"
    using FlushFamilyTo_flushed[OF ok, of e fl ft] assms(3) by simp
  show ?thesis
  proof
    fix fs assume m: "fs \<in> set (md_fieldStores md')"
    then have "fs_ok fs" "ft \<notin> set (familyTimes_of fs)" using f by (auto simp: md_ok_def)
    then show "ft \<notin> set (familyTimes_of fs) \<and> GetSStore fs ft = None"
      using GetSStore_Some_iff[of fs ft] by (simp add: fs_ok_def)
  qed
qed

text \<open>Witness for C3: a run that leaves segments of two families in the mutable index and
  one in the immutable index; after the flush of the first family only the segment of the
  other family is left.\<close>

theorem FlushFamilyTo_leaves_no_segment_witness:
  "fst (FlushFamilyTo env0 dbRun flusher0 7200000) = None \<and>
   map familyTimes_of (md_fieldStores dbRun) = [[7200000], [10800000], [7200000]] \<and>
   map familyTimes_of (md_fieldStores dbRunFlushed) = [[], [10800000]] \<and>
   7200000 \<notin> set (concat (map familyTimes_of (md_fieldStores dbRunFlushed)))"
proof -
  have a: "fst (FlushFamilyTo env0 dbRun flusher0 7200000) = None" by code_simp
  have b: "map familyTimes_of (md_fieldStores dbRun) = [[7200000], [10800000], [7200000]]"
    by code_simp
  have c: "map familyTimes_of (md_fieldStores dbRunFlushed) = [[], [10800000]]"
    by code_simp
  have d: "FlushFamilyTo env0 dbRun flusher0 7200000 =
      (None, dbRunFlushed, snd (snd (FlushFamilyTo env0 dbRun flusher0 7200000)))"
    using a by (simp add: dbRunFlushed_def prod_eq_iff)
  have "\<forall>fs \<in> set (md_fieldStores dbRunFlushed).
      7200000 \<notin> set (familyTimes_of fs) \<and> GetSStore fs 7200000 = None"
    using FlushFamilyTo_leaves_no_segment[of 4 dbRun env0 360 10000 gen0 calls0 flusher0 7200000]
      d by (simp add: dbRun_def)
  then have "7200000 \<notin> set (concat (map familyTimes_of (md_fieldStores dbRunFlushed)))"
    by auto
  with a b c show ?thesis by simp
qed

section \<open>Properties of the channel manager\<close>

lemma CreateChannel_keeps:
  assumes "map_of (databaseShards cm) database = Some n"
    and "map_of (channels cm) (database, shard) = Some ch"
  shows "map_of (databaseShards (snd (CreateChannel cm db' n' s'))) database = Some n \<and>
         map_of (channels (snd (CreateChannel cm db' n' s'))) (database, shard) = Some ch"
  using assms
  by (auto simp: CreateChannel_def newChannel_def Let_def map_of_mapPut split: option.splits)

lemma cm_run_keeps:
  assumes "map_of (databaseShards cm) database = Some n"
    and "map_of (channels cm) (database, shard) = Some ch"
  shows "map_of (databaseShards (cm_run cm calls)) database = Some n \<and>
         map_of (channels (cm_run cm calls)) (database, shard) = Some ch"
  using assms
proof (induction calls arbitrary: cm)
  case Nil
  then show ?case by simp
next
  case (Cons c calls)
  obtain db' n' s' where c: "c = (db', n', s')" by (cases c)
  show ?case
    using Cons.IH[of "snd (CreateChannel cm db' n' s')"] CreateChannel_keeps[OF Cons.prems, of db' n' s']
    by (simp add: c)
qed

lemma CreateChannel_success:
  assumes "CreateChannel cm database numShards shard = (Inr ch, cm1)"
  shows "map_of (databaseShards cm1) database = Some numShards \<and>
         map_of (channels cm1) (database, shard) = Some ch \<and> 0 \<le> shard \<and> shard < numShards"
  using assms
  by (auto simp: CreateChannel_def newChannel_def Let_def map_of_mapPut split: option.splits if_splits)

text \<open>
  Claim C6. \<^verbatim>\<open>CreateChannel\<close> returns an error and changes nothing when the shard is not
  below the number of shards. After a call that succeeded, and whatever calls follow it, a
  call for the same database with another number of shards returns
  \<^verbatim>\<open>ErrShardConfigConflict\<close>, and the call with the same arguments returns the channel
  instance of the first call.
\<close>

theorem CreateChannel_spec:
  "(shard \<ge> numShards \<longrightarrow> (\<exists>err. CreateChannel cm database numShards shard = (Inl err, cm))) \<and>
   (\<forall>ch cm1 calls n' s'. CreateChannel cm database numShards shard = (Inr ch, cm1) \<longrightarrow>
      (n' \<noteq> numShards \<longrightarrow>
         CreateChannel (cm_run cm1 calls) database n' s' = (Inl ErrShardConfigConflict, cm_run cm1 calls)) \<and>
      CreateChannel (cm_run cm1 calls) database numShards shard = (Inr ch, cm_run cm1 calls))"
proof (intro conjI allI impI)
  assume "numShards \<le> shard"
  then show "\<exists>err. CreateChannel cm database numShards shard = (Inl err, cm)"
    by (simp add: CreateChannel_def)
next
  fix ch cm1 calls n' s'
  assume a: "CreateChannel cm database numShards shard = (Inr ch, cm1)"
  note s = CreateChannel_success[OF a]
  have k: "map_of (databaseShards (cm_run cm1 calls)) database = Some numShards"
    "map_of (channels (cm_run cm1 calls)) (database, shard) = Some ch"
    using cm_run_keeps[of cm1 database numShards shard ch calls] s by simp_all
  show "CreateChannel (cm_run cm1 calls) database numShards shard = (Inr ch, cm_run cm1 calls)"
    using k s by (simp add: CreateChannel_def)
  assume "n' \<noteq> numShards"
  then show "CreateChannel (cm_run cm1 calls) database n' s' = (Inl ErrShardConfigConflict, cm_run cm1 calls)"
    using k by (simp add: CreateChannel_def)
qed

text \<open>Witness for C6: the calls of \<^verbatim>\<open>TestChannelManager_GetChannel\<close>.\<close>

theorem CreateChannel_spec_witness:
  "(2::int) \<le> 2 \<and>
   CreateChannel NewChannelManager ''database'' 2 2 = (Inl ErrShardConfigConflict, NewChannelManager) \<and>
   fst (CreateChannel NewChannelManager ''database'' 3 0) =
     Inr \<lparr>ch_instance = 0, ch_database = ''database'', ch_shardID = 0\<rparr> \<and>
   (2::int) \<noteq> 3 \<and>
   fst (CreateChannel (cm_run (snd (CreateChannel NewChannelManager ''database'' 3 0)) [(''other'', 1, 0)])
          ''database'' 2 1) = Inl ErrShardConfigConflict \<and>
   fst (CreateChannel (cm_run (snd (CreateChannel NewChannelManager ''database'' 3 0)) [(''other'', 1, 0)])
          ''database'' 3 0) = Inr \<lparr>ch_instance = 0, ch_database = ''database'', ch_shardID = 0\<rparr>"
proof -
  let ?ch = "\<lparr>ch_instance = 0, ch_database = ''database'', ch_shardID = 0\<rparr>"
  let ?cm1 = "snd (CreateChannel NewChannelManager ''database'' 3 0)"
  have a': "fst (CreateChannel NewChannelManager ''database'' 3 0) = Inr ?ch"
    by (simp add: CreateChannel_def newChannel_def NewChannelManager_def Let_def)
  then have a: "CreateChannel NewChannelManager ''database'' 3 0 = (Inr ?ch, ?cm1)"
    by (simp add: prod_eq_iff)
  have b: "CreateChannel NewChannelManager ''database'' 2 2 = (Inl ErrShardConfigConflict, NewChannelManager)"
    using CreateChannel_spec[of 2 2 NewChannelManager "''database''"]
    by (auto simp: CreateChannel_def)
  note t = CreateChannel_spec[of 3 0 NewChannelManager "''database''", THEN conjunct2, rule_format, OF a,
      of _ "[(''other'', 1, 0)]"]
  have c: "CreateChannel (cm_run ?cm1 [(''other'', 1, 0)]) ''database'' 2 1 =
      (Inl ErrShardConfigConflict, cm_run ?cm1 [(''other'', 1, 0)])"
    using t[of 2 1] by simp
  have d: "CreateChannel (cm_run ?cm1 [(''other'', 1, 0)]) ''database'' 3 0 =
      (Inr ?ch, cm_run ?cm1 [(''other'', 1, 0)])"
    using t[of 3 0] by simp
  have c': "fst (CreateChannel (cm_run ?cm1 [(''other'', 1, 0)]) ''database'' 2 1) = Inl ErrShardConfigConflict"
    by (simp only: c fst_conv)
  have d': "fst (CreateChannel (cm_run ?cm1 [(''other'', 1, 0)]) ''database'' 3 0) = Inr ?ch"
    by (simp only: d fst_conv)
  from a' b c' d' show ?thesis by simp
qed


end
